theory Spec2Isabelle
  imports Main "HOL-Library.Word"
begin

section \<open>PmdkLogger: an append-only logger over a persistent-memory mapping\<close>

text \<open>
  A shallow embedding of \<^verbatim>\<open>util/pmdk_logger.h\<close>. The class has four members
  (\<^verbatim>\<open>filename_\<close>, \<^verbatim>\<open>length_\<close>, \<^verbatim>\<open>mmap_base_\<close>, \<^verbatim>\<open>now_off_\<close>; a name cannot end
  in an underscore here, so each is written with \<open>_m\<close> for the underscore); every
  call it makes to a collaborator (libpmem, the C formatter, the allocator) is
  appended to a log of effects, so that what the code does besides updating its
  members can be stated. \<^verbatim>\<open>size_t\<close> and pointers are 64-bit words whose
  arithmetic wraps. C \<^verbatim>\<open>int\<close> values (buffer sizes and offsets) are integers,
  and an \<^verbatim>\<open>int\<close> computation whose result would exceed \<open>INT_MAX\<close> is undefined
  behaviour, which ends the call with a fault.
\<close>

subsection \<open>Data\<close>

type_synonym size_t = "64 word"
type_synonym addr = "64 word"

datatype map_flag = PMEM_FILE_CREATE | PMEM_FILE_SPARSE

datatype event =
    Snprintf int
  | Vsnprintf int
  | NewCharArray int
  | DeleteArray
  | PmemUnmap addr size_t
  | PmemMapFile string size_t "map_flag list" nat
  | PmemMemcpy addr size_t string

datatype fault = AssertionFailed | UndefinedBehaviour

datatype carg = ArgInt int | ArgStr string

record tm =
  tm_year :: int
  tm_mon :: int
  tm_mday :: int
  tm_hour :: int
  tm_min :: int
  tm_sec :: int

text \<open>
  What one call of \<^verbatim>\<open>Logv\<close> reads from outside the object: the broken-down
  local time and the microseconds of \<^verbatim>\<open>gettimeofday\<close>, the text the thread id
  streams to, and the caller's format string and arguments.
\<close>

record logv_call =
  now_components :: tm
  tv_usec :: int
  thread_stream :: string
  format :: string
  arguments :: "carg list"

text \<open>
  The collaborators that are not part of this class: whether assertions are
  compiled out (\<^verbatim>\<open>NDEBUG\<close>), libpmem's \<^verbatim>\<open>pmem_map_file\<close> (given the calls made
  so far, the path, the requested length, the flags and the mode it answers with
  the base address and the mapped length it stores through \<^verbatim>\<open>&new_size\<close>), and
  the full text \<^verbatim>\<open>vsnprintf\<close> renders for a format and its arguments, or
  \<open>None\<close> when it fails on them.
\<close>

record env =
  ndebug :: bool
  pmem_map_file :: "event list \<Rightarrow> string \<Rightarrow> size_t \<Rightarrow> map_flag list \<Rightarrow> nat \<Rightarrow> addr \<times> size_t"
  vsnprintf_text :: "string \<Rightarrow> carg list \<Rightarrow> string option"

record logger =
  filename_m :: string
  length_m :: size_t
  mmap_base_m :: addr
  now_off_m :: size_t
  effects :: "event list"

definition emit :: "event \<Rightarrow> logger \<Rightarrow> logger" where
  "emit e s = s\<lparr>effects := effects s @ [e]\<rparr>"

definition kMaxThreadIdSize :: nat where
  "kMaxThreadIdSize = 32"

definition kStackBufferSize :: int where
  "kStackBufferSize = 512"

definition kGrowth :: size_t where
  "kGrowth = 32 * 1024 * 1024"

definition INT_MAX :: int where
  "INT_MAX = 2147483647"

definition kMode :: nat where
  "kMode = 438"

definition NUL :: char where
  "NUL = CHR 0x00"

definition newline :: char where
  "newline = CHR 0x0A"

subsection \<open>The C formatter, for the conversions the logger uses\<close>

text \<open>
  \<^verbatim>\<open>snprintf\<close> belongs to the C library. Its rendering is modelled after the C
  standard for literal text, \<^verbatim>\<open>%%\<close>, \<^verbatim>\<open>%s\<close> and \<^verbatim>\<open>%d\<close> with an optional \<^verbatim>\<open>0\<close>
  flag and minimum field width; any other directive, and an argument of the
  wrong kind, is \<open>None\<close>.
\<close>

definition digit_char :: "nat \<Rightarrow> char" where
  "digit_char d = ''0123456789'' ! d"

fun dec :: "nat \<Rightarrow> string" where
  "dec n = (if n < 10 then [digit_char n] else dec (n div 10) @ [digit_char (n mod 10)])"

declare dec.simps [simp del]

definition conv_d :: "bool \<Rightarrow> nat \<Rightarrow> int \<Rightarrow> string" where
  "conv_d zero width v =
     (let sign = (if v < 0 then ''-'' else '''');
          digits = dec (nat \<bar>v\<bar>);
          pad = width - (length sign + length digits)
      in if zero then sign @ replicate pad (CHR ''0'') @ digits
         else replicate pad (CHR '' '') @ sign @ digits)"

definition conv_s :: "nat \<Rightarrow> string \<Rightarrow> string" where
  "conv_s width t = replicate (width - length t) (CHR '' '') @ t"

definition is_digit :: "char \<Rightarrow> bool" where
  "is_digit c = (c \<in> set ''0123456789'')"

definition digit_val :: "char \<Rightarrow> nat" where
  "digit_val c = (of_char c :: nat) - 48"

datatype directive = Literal | Directive bool nat

fun c_format :: "directive \<Rightarrow> string \<Rightarrow> carg list \<Rightarrow> string option" where
  "c_format Literal [] args = Some []"
| "c_format (Directive zero w) [] args = None"
| "c_format Literal (c # cs) args =
     (if c = CHR ''%'' then c_format (Directive False 0) cs args
      else map_option ((#) c) (c_format Literal cs args))"
| "c_format (Directive zero w) (c # cs) args =
     (if c = CHR ''%'' \<and> \<not> zero \<and> w = 0 then map_option ((#) c) (c_format Literal cs args)
      else if c = CHR ''0'' \<and> w = 0 then c_format (Directive True 0) cs args
      else if is_digit c then c_format (Directive zero (10 * w + digit_val c)) cs args
      else if c = CHR ''d'' then
        (case args of
           ArgInt v # rest \<Rightarrow> map_option ((@) (conv_d zero w v)) (c_format Literal cs rest)
         | _ \<Rightarrow> None)
      else if c = CHR ''s'' \<and> \<not> zero then
        (case args of
           ArgStr t # rest \<Rightarrow> map_option ((@) (conv_s w t)) (c_format Literal cs rest)
         | _ \<Rightarrow> None)
      else None)"

definition c_printf :: "string \<Rightarrow> carg list \<Rightarrow> string option" where
  "c_printf fmt args = c_format Literal fmt args"

text \<open>
  Writing into a character array. \<^verbatim>\<open>snprintf(buffer + pos, n, ...)\<close> stores at
  most \<open>n - 1\<close> characters of the rendered text and a terminating NUL, and
  returns the length of the whole rendered text.
\<close>

definition write_at :: "string \<Rightarrow> nat \<Rightarrow> string \<Rightarrow> string" where
  "write_at buffer pos bytes = take pos buffer @ bytes @ drop (pos + length bytes) buffer"

definition c_snprintf :: "string \<Rightarrow> nat \<Rightarrow> nat \<Rightarrow> string \<Rightarrow> string \<times> int" where
  "c_snprintf buffer pos n rendered =
     (if n = 0 then buffer else write_at buffer pos (take (n - 1) rendered @ [NUL]),
      int (length rendered))"

text \<open>
  \<^verbatim>\<open>vsnprintf\<close> on the caller's format can fail: on a format it cannot render, or
  on a text longer than \<open>INT_MAX\<close>, which its \<^verbatim>\<open>int\<close> result cannot report. It
  then returns a negative value, \<open>-1\<close> (the value of \<^verbatim>\<open>EOF\<close>) in the C libraries in
  use. What it has stored by then, at \<open>pos\<close> or after it, is unspecified; the
  buffer is left as it was here, and the caller reads no byte from \<open>pos\<close> on
  after a failure.
\<close>

definition c_vsnprintf :: "string \<Rightarrow> nat \<Rightarrow> nat \<Rightarrow> string option \<Rightarrow> string \<times> int" where
  "c_vsnprintf buffer pos n rendered =
     (case rendered of
        None \<Rightarrow> (buffer, - 1)
      | Some t \<Rightarrow>
          if INT_MAX < int (length t) then (buffer, - 1) else c_snprintf buffer pos n t)"

subsection \<open>The header of a record\<close>

definition c_str :: "string \<Rightarrow> string" where
  "c_str t = takeWhile (\<lambda>c. c \<noteq> NUL) t"

definition thread_id :: "logv_call \<Rightarrow> string" where
  "thread_id c =
     (if length (thread_stream c) > kMaxThreadIdSize
      then take kMaxThreadIdSize (thread_stream c) else thread_stream c)"

definition kHeaderFormat :: string where
  "kHeaderFormat = ''%04d/%02d/%02d-%02d:%02d:%02d.%06d %s ''"

definition header_text :: "logv_call \<Rightarrow> string" where
  "header_text c =
     (case c_printf kHeaderFormat
             [ArgInt (tm_year (now_components c) + 1900), ArgInt (tm_mon (now_components c) + 1),
              ArgInt (tm_mday (now_components c)), ArgInt (tm_hour (now_components c)),
              ArgInt (tm_min (now_components c)), ArgInt (tm_sec (now_components c)),
              ArgInt (tv_usec c), ArgStr (c_str (thread_id c))] of
        Some h \<Rightarrow> h
      | None \<Rightarrow> [])"

subsection \<open>Construction and disposal\<close>

definition PmdkLogger :: "env \<Rightarrow> string \<Rightarrow> addr \<Rightarrow> size_t \<Rightarrow> bool \<Rightarrow> fault + logger" where
  "PmdkLogger E filename mmap_base len existing =
     (if \<not> ndebug E \<and> mmap_base = 0 then Inl AssertionFailed
      else Inr \<lparr>filename_m = filename, length_m = len, mmap_base_m = mmap_base,
                now_off_m = (if existing then len else 0), effects = []\<rparr>)"

definition remap :: "env \<Rightarrow> size_t \<Rightarrow> map_flag list \<Rightarrow> logger \<Rightarrow> logger" where
  "remap E request flags s =
     (let s1 = emit (PmemUnmap (mmap_base_m s) (length_m s)) s;
          (base, new_size) = pmem_map_file E (effects s1) (filename_m s1) request flags kMode;
          s2 = emit (PmemMapFile (filename_m s1) request flags kMode) s1
      in s2\<lparr>mmap_base_m := base, length_m := new_size\<rparr>)"


subsection \<open>Appending a record\<close>

definition grow_step :: "env \<Rightarrow> logger \<Rightarrow> logger" where
  "grow_step E s = remap E (length_m s + kGrowth) [PMEM_FILE_CREATE, PMEM_FILE_SPARSE] s"

partial_function (option) grow :: "env \<Rightarrow> int \<Rightarrow> logger \<Rightarrow> logger option" where
  "grow E buffer_offset s =
     (if now_off_m s + of_int buffer_offset > length_m s
      then grow E buffer_offset (grow_step E s)
      else Some s)"

declare grow.simps [code]

text \<open>
  Lines 124 to 128: a newline is stored after the text unless its last character
  is one already.
\<close>

definition terminate_line :: "string \<Rightarrow> int \<Rightarrow> string \<times> int" where
  "terminate_line buffer buffer_offset =
     (if buffer ! nat (buffer_offset - 1) \<noteq> newline
      then (buffer[nat buffer_offset := newline], buffer_offset + 1)
      else (buffer, buffer_offset))"

text \<open>
  Lines 135 to 145: the growth loop, the copy into the mapping at
  \<^verbatim>\<open>mmap_base_ + now_off_\<close> (logged as base, offset and the bytes copied) and
  the advance of the offset.
\<close>

definition commit :: "env \<Rightarrow> string \<Rightarrow> int \<Rightarrow> logger \<Rightarrow> logger option" where
  "commit E buffer buffer_offset s =
     (case grow E buffer_offset s of
        None \<Rightarrow> None
      | Some s1 \<Rightarrow>
          Some ((emit (PmemMemcpy (mmap_base_m s1) (now_off_m s1)
                        (take (nat buffer_offset) buffer)) s1)
                  \<lparr>now_off_m := now_off_m s1 + of_int buffer_offset\<rparr>))"

text \<open>
  The two-iteration loop of \<^verbatim>\<open>Logv\<close>. A fresh buffer holds unspecified bytes
  (NUL here; no byte is read before it is written). A failed \<^verbatim>\<open>assert\<close> ends
  the call unless assertions are compiled out; a header that does not fit the
  buffer would then make \<^verbatim>\<open>vsnprintf\<close> write outside it. The behaviour is
  undefined as well when \<^verbatim>\<open>buffer_offset += ...\<close> (line 100) or
  \<^verbatim>\<open>buffer_offset + 2\<close> (line 113) exceeds \<open>INT_MAX\<close>, and when line 125 reads
  \<^verbatim>\<open>buffer[buffer_offset - 1]\<close> with an offset below 1.
\<close>

function Logv_loop :: "env \<Rightarrow> logv_call \<Rightarrow> int \<Rightarrow> int \<Rightarrow> logger \<Rightarrow> (fault + logger) option" where
  "Logv_loop E c iteration dynamic_buffer_size s =
     (if iteration < 2 then
        (let buffer_size = (if iteration = 0 then kStackBufferSize else dynamic_buffer_size);
             s1 = (if iteration = 0 then s else emit (NewCharArray dynamic_buffer_size) s);
             (buffer1, header_len) =
                c_snprintf (replicate (nat buffer_size) NUL) 0 (nat buffer_size) (header_text c);
             s2 = emit (Snprintf buffer_size) s1
         in if \<not> ndebug E \<and> \<not> header_len \<le> 28 + int kMaxThreadIdSize
            then Some (Inl AssertionFailed)
            else if \<not> header_len < buffer_size
            then Some (Inl (if ndebug E then UndefinedBehaviour else AssertionFailed))
            else
              (let (buffer2, n) =
                     c_vsnprintf buffer1 (nat header_len) (nat (buffer_size - header_len))
                       (vsnprintf_text E (format c) (arguments c));
                   s3 = emit (Vsnprintf (buffer_size - header_len)) s2
               in if INT_MAX < header_len + n
                  then Some (Inl UndefinedBehaviour)
                  else
                    (let buffer_offset = header_len + n
                     in if buffer_offset \<ge> buffer_size - 1 \<and> iteration = 0
                        then (if INT_MAX < buffer_offset + 2
                              then Some (Inl UndefinedBehaviour)
                              else Logv_loop E c (iteration + 1) (buffer_offset + 2) s3)
                        else if buffer_offset \<ge> buffer_size - 1 \<and> \<not> ndebug E
                        then Some (Inl AssertionFailed)
                        else
                          (let buffer_offset =
                                 (if buffer_offset \<ge> buffer_size - 1 then buffer_size - 1
                                  else buffer_offset)
                           in if buffer_offset < 1
                              then Some (Inl UndefinedBehaviour)
                              else
                                (let (buffer3, record_len) = terminate_line buffer2 buffer_offset
                                 in if \<not> ndebug E \<and> \<not> record_len \<le> buffer_size
                                    then Some (Inl AssertionFailed)
                                    else map_option
                                           (\<lambda>s4. Inr (if iteration \<noteq> 0 then emit DeleteArray s4
                                                      else s4))
                                           (commit E buffer3 record_len s3))))))
      else Some (Inr s))"
  by pat_completeness auto
termination
  by (relation "measure (\<lambda>(E, c, iteration, dynamic_buffer_size, s). nat (2 - iteration))") auto

declare Logv_loop.simps [simp del]

definition Logv :: "env \<Rightarrow> logv_call \<Rightarrow> logger \<Rightarrow> (fault + logger) option" where
  "Logv E c s = Logv_loop E c 0 0 s"

fun Logv_seq :: "env \<Rightarrow> logv_call list \<Rightarrow> logger \<Rightarrow> (fault + logger) option" where
  "Logv_seq E [] s = Some (Inr s)"
| "Logv_seq E (c # cs) s =
     (case Logv E c s of
        Some (Inr s1) \<Rightarrow> Logv_seq E cs s1
      | r \<Rightarrow> r)"

subsection \<open>Vocabulary of the statements\<close>

text \<open>
  The text of a record before its line break: the header, then the message as
  \<^verbatim>\<open>vsnprintf\<close> renders it; when \<^verbatim>\<open>vsnprintf\<close> fails, its \<open>-1\<close> is added to the
  offset all the same, which leaves the header less its last character. The
  bytes of the record are that text, with a newline after it unless it ends in
  one.
\<close>

definition rendered :: "env \<Rightarrow> logv_call \<Rightarrow> string" where
  "rendered E c =
     (case vsnprintf_text E (format c) (arguments c) of
        Some body \<Rightarrow> header_text c @ body
      | None \<Rightarrow> butlast (header_text c))"

definition record_bytes :: "env \<Rightarrow> logv_call \<Rightarrow> string" where
  "record_bytes E c =
     (if last (rendered E c) = newline then rendered E c else rendered E c @ [newline])"

definition total_bytes :: "env \<Rightarrow> logv_call list \<Rightarrow> nat" where
  "total_bytes E cs = sum_list (map (\<lambda>c. length (record_bytes E c)) cs)"

definition trailing_newlines :: "string \<Rightarrow> nat" where
  "trailing_newlines t = length (takeWhile (\<lambda>c. c = newline) (rev t))"

text \<open>The decimal digits of \<open>n\<close> in exactly \<open>k\<close> places.\<close>

fun zpad :: "nat \<Rightarrow> nat \<Rightarrow> string" where
  "zpad 0 n = []"
| "zpad (Suc k) n = zpad k (n div 10) @ [digit_char (n mod 10)]"

text \<open>The date and time of a header, \<^verbatim>\<open>YYYY/MM/DD-HH:MM:SS.UUUUUU\<close>, digit by digit.\<close>

definition stamp :: "logv_call \<Rightarrow> string" where
  "stamp c =
     zpad 4 (nat (tm_year (now_components c) + 1900)) @ ''/'' @
     zpad 2 (nat (tm_mon (now_components c) + 1)) @ ''/'' @
     zpad 2 (nat (tm_mday (now_components c))) @ ''-'' @
     zpad 2 (nat (tm_hour (now_components c))) @ '':'' @
     zpad 2 (nat (tm_min (now_components c))) @ '':'' @
     zpad 2 (nat (tm_sec (now_components c))) @ ''.'' @
     zpad 6 (nat (tv_usec c))"

text \<open>
  A captured instant whose fields are in the ranges of \<^verbatim>\<open>struct tm\<close> and
  \<^verbatim>\<open>struct timeval\<close>, with a year of at most four digits.
\<close>

definition valid_instant :: "logv_call \<Rightarrow> bool" where
  "valid_instant c \<longleftrightarrow>
     0 \<le> tm_year (now_components c) + 1900 \<and> tm_year (now_components c) + 1900 \<le> 9999 \<and>
     0 \<le> tm_mon (now_components c) \<and> tm_mon (now_components c) \<le> 11 \<and>
     1 \<le> tm_mday (now_components c) \<and> tm_mday (now_components c) \<le> 31 \<and>
     0 \<le> tm_hour (now_components c) \<and> tm_hour (now_components c) \<le> 23 \<and>
     0 \<le> tm_min (now_components c) \<and> tm_min (now_components c) \<le> 59 \<and>
     0 \<le> tm_sec (now_components c) \<and> tm_sec (now_components c) \<le> 60 \<and>
     0 \<le> tv_usec c \<and> tv_usec c \<le> 999999"

text \<open>
  A call the code's \<^verbatim>\<open>int\<close> arithmetic can carry: a valid instant, and a text
  whose length plus the 2 of line 113 does not exceed \<open>INT_MAX\<close>.
\<close>

definition loggable :: "env \<Rightarrow> logv_call \<Rightarrow> bool" where
  "loggable E c \<longleftrightarrow> valid_instant c \<and> int (length (rendered E c)) + 2 \<le> INT_MAX"

text \<open>
  The contract of the mapping service: the mapped length it reports is at least
  the length requested (\<open>map_ok\<close>), or exactly that length (\<open>map_exact\<close>, what
  libpmem does for a file it creates).
\<close>

definition map_ok :: "env \<Rightarrow> bool" where
  "map_ok E \<longleftrightarrow> (\<forall>tr p len fl m. len \<le> snd (pmem_map_file E tr p len fl m))"

definition map_exact :: "env \<Rightarrow> bool" where
  "map_exact E \<longleftrightarrow> (\<forall>tr p len fl m. snd (pmem_map_file E tr p len fl m) = len)"

text \<open>
  Sizes stay clear of the end of the 64-bit range: \<open>k\<close> more bytes after the
  offset, and one growth increment after that, are below \<open>2^64\<close>.
\<close>

definition room :: "nat \<Rightarrow> logger \<Rightarrow> bool" where
  "room k s \<longleftrightarrow> unat (now_off_m s) + k + 2 ^ 25 < (2::nat) ^ 64"

definition capacity_ok :: "logger \<Rightarrow> bool" where
  "capacity_ok s \<longleftrightarrow> now_off_m s \<le> length_m s"

text \<open>Reading the log of effects: the copies made (offset and bytes), and kinds of calls.\<close>

fun copies :: "event list \<Rightarrow> (nat \<times> string) list" where
  "copies [] = []"
| "copies (PmemMemcpy base off bytes # es) = (unat off, bytes) # copies es"
| "copies (e # es) = copies es"

fun is_heap_event :: "event \<Rightarrow> bool" where
  "is_heap_event (NewCharArray n) = True"
| "is_heap_event DeleteArray = True"
| "is_heap_event e = False"

fun is_mapping_call :: "event \<Rightarrow> bool" where
  "is_mapping_call (PmemUnmap b l) = True"
| "is_mapping_call (PmemMapFile p l fl m) = True"
| "is_mapping_call e = False"

text \<open>
  Records laid end to end from an offset, and the property that in a list of
  copies every later one starts at or after the end of each earlier one.
\<close>

fun layout :: "nat \<Rightarrow> string list \<Rightarrow> (nat \<times> string) list" where
  "layout off [] = []"
| "layout off (r # rs) = (off, r) # layout (off + length r) rs"

fun apart :: "(nat \<times> string) list \<Rightarrow> bool" where
  "apart [] = True"
| "apart ((a, r) # xs) = (list_all (\<lambda>(b, t). a + length r \<le> b) xs \<and> apart xs)"

subsection \<open>Concrete inputs\<close>

definition env_exact :: env where
  "env_exact = \<lparr>ndebug = False,
                pmem_map_file = (\<lambda>tr p len fl m. (0x7f0000000000, len)),
                vsnprintf_text = c_printf\<rparr>"

text \<open>A mapping service that never maps less than 64 MiB.\<close>

definition env_coarse :: env where
  "env_coarse = \<lparr>ndebug = False,
                 pmem_map_file = (\<lambda>tr p len fl m. (0x7f0000000000, max len 0x4000000)),
                 vsnprintf_text = c_printf\<rparr>"

definition instant0 :: tm where
  "instant0 = \<lparr>tm_year = 124, tm_mon = 2, tm_mday = 9, tm_hour = 7, tm_min = 5, tm_sec = 3\<rparr>"

definition call_x5 :: logv_call where
  "call_x5 = \<lparr>now_components = instant0, tv_usec = 42, thread_stream = ''140213'',
              format = ''%s=%d'', arguments = [ArgStr ''x'', ArgInt 5]\<rparr>"

definition call_blank_lines :: logv_call where
  "call_blank_lines = call_x5\<lparr>format := [CHR ''a'', newline, newline], arguments := []\<rparr>"

definition call_long :: logv_call where
  "call_long = call_x5\<lparr>format := replicate 600 (CHR ''a'') @ [newline, newline],
                        arguments := []\<rparr>"

definition call_percent :: logv_call where
  "call_percent = call_x5\<lparr>format := ''%'', arguments := []\<rparr>"

definition call_empty :: logv_call where
  "call_empty = call_x5\<lparr>format := [], arguments := []\<rparr>"

definition logger0 :: logger where
  "logger0 = \<lparr>filename_m = ''/mnt/pmem/LOG'', length_m = 100, mmap_base_m = 0x7f0000000000,
               now_off_m = 90, effects = []\<rparr>"

section \<open>Properties\<close>

subsection \<open>Formatting into a buffer\<close>

lemma snprintf_header:
  assumes "length H < N"
  shows "c_snprintf (replicate N NUL) 0 N H = (H @ replicate (N - length H) NUL, int (length H))"
proof -
  have "N - length H = Suc (N - Suc (length H))" using assms by simp
  then have "replicate (N - length H) NUL = NUL # replicate (N - Suc (length H)) NUL"
    by (simp only: replicate_Suc)
  then show ?thesis
    using assms by (simp add: c_snprintf_def write_at_def)
qed

lemma snprintf_body:
  assumes "length H + length B < N"
  shows "c_snprintf (H @ replicate (N - length H) NUL) (length H) (N - length H) B =
           (H @ B @ replicate (N - (length H + length B)) NUL, int (length B))"
proof -
  have "N - (length H + length B) = Suc (N - Suc (length H + length B))" using assms by simp
  then have "replicate (N - (length H + length B)) NUL =
               NUL # replicate (N - Suc (length H + length B)) NUL"
    by (simp only: replicate_Suc)
  then show ?thesis
    using assms by (simp add: c_snprintf_def write_at_def)
qed

text \<open>
  After \<^verbatim>\<open>vsnprintf\<close> into a buffer with room for the text and two more bytes, the
  buffer starts with the text and has a byte after it, and the value returned is
  the length of the text less that of the header: also when \<^verbatim>\<open>vsnprintf\<close> fails.
\<close>

lemma vsnprintf_fit:
  assumes "2 \<le> length H" "int N \<le> INT_MAX"
    and "T = (case r of Some B \<Rightarrow> H @ B | None \<Rightarrow> butlast H)"
    and "length H < N" "length T + 2 \<le> N"
  shows "\<exists>x rest. c_vsnprintf (H @ replicate (N - length H) NUL) (length H) (N - length H) r =
           (T @ x # rest, int (length T) - int (length H))"
proof (cases r)
  case None
  have T: "T = butlast H" using None assms(3) by simp
  have "butlast H @ [last H] = H" using assms(1) by (cases H rule: rev_cases) auto
  then have buf: "H @ replicate (N - length H) NUL = T @ last H # replicate (N - length H) NUL"
    by (simp add: T)
  have ret: "int (length T) - int (length H) = - 1"
    using assms(1) by (simp add: T)
  have "c_vsnprintf (H @ replicate (N - length H) NUL) (length H) (N - length H) r =
          (T @ last H # replicate (N - length H) NUL, int (length T) - int (length H))"
    unfolding ret using None buf by (simp add: c_vsnprintf_def)
  then show ?thesis by blast
next
  case (Some B)
  have T: "T = H @ B" using Some assms(3) by simp
  have lt: "length H + length B < N" using assms(5) by (simp add: T)
  have small: "\<not> INT_MAX < int (length B)" using assms(2,5) by (simp add: T)
  obtain k where k: "N - (length H + length B) = Suc k"
    using lt by (cases "N - (length H + length B)") auto
  show ?thesis
    using Some small snprintf_body [OF lt]
    by (simp add: c_vsnprintf_def T k)
qed

lemma terminate_line_at:
  assumes "T \<noteq> []"
  shows "terminate_line (T @ x # rest) (int (length T)) =
           (if last T = newline then (T @ x # rest, int (length T))
            else (T @ newline # rest, int (length T) + 1))"
proof -
  have "(T @ x # rest) ! (length T - 1) = last T"
    using assms by (simp add: nth_append last_conv_nth)
  moreover have "nat (int (length T) - 1) = length T - 1" by simp
  ultimately show ?thesis
    by (simp add: terminate_line_def list_update_append)
qed

lemma record_taken:
  assumes "T \<noteq> []"
  shows "(case terminate_line (T @ x # rest) (int (length T)) of
            (buffer3, record_len) \<Rightarrow> (take (nat record_len) buffer3, record_len)) =
         (if last T = newline then T else T @ [newline],
          int (length (if last T = newline then T else T @ [newline])))"
proof -
  have n: "nat (int (length T) + 1) = Suc (length T)" by simp
  show ?thesis
    by (simp add: terminate_line_at [OF assms] n)
qed

lemma commit_cong:
  "take (nat n) buf = take (nat n) buf' \<Longrightarrow> commit E buf n s = commit E buf' n s"
  by (simp add: commit_def split: option.split)


lemma rendered_cases:
  "rendered E c =
     (case vsnprintf_text E (format c) (arguments c) of
        Some B \<Rightarrow> header_text c @ B | None \<Rightarrow> butlast (header_text c))"
  by (simp add: rendered_def)

lemma rendered_nonempty: "2 \<le> length (header_text c) \<Longrightarrow> rendered E c \<noteq> []"
  by (cases "header_text c" rule: rev_cases) (auto simp: rendered_def split: option.split)

lemma header_le_rendered: "length (header_text c) \<le> Suc (length (rendered E c))"
  by (auto simp: rendered_def split: option.split)

text \<open>
  A pass whose buffer has room for the text, a newline and the terminator
  formats once and commits the record.
\<close>

lemma Logv_loop_fit:
  assumes H: "2 \<le> length (header_text c)" "length (header_text c) \<le> 60"
    and it: "iteration = 0 \<or> iteration = 1"
    and N: "int N = (if iteration = 0 then kStackBufferSize else dynamic_buffer_size)"
    and fit: "length (rendered E c) + 2 \<le> N" and max: "int N \<le> INT_MAX"
  shows "Logv_loop E c iteration dynamic_buffer_size s =
           map_option (\<lambda>s4. Inr (if iteration \<noteq> 0 then emit DeleteArray s4 else s4))
             (commit E (record_bytes E c) (int (length (record_bytes E c)))
                (emit (Vsnprintf (int N - int (length (header_text c))))
                   (emit (Snprintf (int N))
                      (if iteration = 0 then s else emit (NewCharArray dynamic_buffer_size) s))))"
proof -
  define H where "H = header_text c"
  define T where "T = rendered E c"
  have T: "T = (case vsnprintf_text E (format c) (arguments c) of
                  Some B \<Rightarrow> H @ B | None \<Rightarrow> butlast H)"
    by (simp add: T_def H_def rendered_def split: option.split)
  have ne: "T \<noteq> []" using rendered_nonempty [OF H(1)] by (simp add: T_def)
  have lens: "length H < N" "length T + 2 \<le> N"
    using fit header_le_rendered [of c E] by (simp_all add: T_def H_def)
  have h1: "c_snprintf (replicate N NUL) 0 N H =
              (H @ replicate (N - length H) NUL, int (length H))"
    by (rule snprintf_header [OF lens(1)])
  from vsnprintf_fit [OF _ max T lens] H(1) obtain x rest where h2:
    "c_vsnprintf (H @ replicate (N - length H) NUL) (length H) (N - length H)
       (vsnprintf_text E (format c) (arguments c)) =
     (T @ x # rest, int (length T) - int (length H))"
    unfolding H_def by blast
  have n1: "nat (int N - int (length H)) = N - length H" by simp
  obtain b3 r where tl: "terminate_line (T @ x # rest) (int (length T)) = (b3, r)"
    by (cases "terminate_line (T @ x # rest) (int (length T))")
  have i2: "\<And>a. nat (1 + int a) = Suc a" by linarith
  from record_taken [OF ne, of x rest]
  have "(take (nat r) b3, r) = (record_bytes E c, int (length (record_bytes E c)))"
    unfolding tl record_bytes_def T_def [symmetric] by (auto simp: i2 split: if_splits)
  then have r: "take (nat r) b3 = record_bytes E c" "r = int (length (record_bytes E c))"
    by blast+
  have rN: "r \<le> int N" using r(2) lens(2) by (simp add: record_bytes_def T_def [symmetric])
  have cm: "commit E b3 r = commit E (record_bytes E c) r"
    using r(1) by (intro ext commit_cong) (simp add: r(2))
  have bs: "(if iteration = 0 then kStackBufferSize else dynamic_buffer_size) = int N"
    using N by simp
  have lt: "iteration < 2" using it by auto
  have off: "int (length H) + (int (length T) - int (length H)) = int (length T)" by simp
  have cmp: "\<not> INT_MAX < int (length T)" "\<not> int N - 1 \<le> int (length T)"
    "\<not> int (length T) < 1" "int (length H) < int N"
    using lens max ne by (simp_all add: Suc_le_eq)
  have h60: "int (length H) \<le> 28 + int kMaxThreadIdSize"
    using H(2) by (simp add: kMaxThreadIdSize_def H_def)
  show ?thesis
    apply (subst Logv_loop.simps)
    apply (simp only: lt if_True bs Let_def nat_int H_def [symmetric] h1 prod.case n1 h2 off)
    apply (simp only: cmp h60 not_True_eq_False not_False_eq_True simp_thms if_True if_False
        tl prod.case cm rN)
    apply (simp add: r(2))
    done
qed


lemma Logv_stack:
  assumes H: "2 \<le> length (header_text c)" "length (header_text c) \<le> 60"
    and fit: "length (rendered E c) \<le> 510"
  shows "Logv E c s =
           map_option Inr
             (commit E (record_bytes E c) (int (length (record_bytes E c)))
                (emit (Vsnprintf (512 - int (length (header_text c)))) (emit (Snprintf 512) s)))"
proof -
  have "Logv E c s = Logv_loop E c 0 0 s" by (simp add: Logv_def)
  also have "\<dots> = map_option (\<lambda>s4. Inr s4)
             (commit E (record_bytes E c) (int (length (record_bytes E c)))
                (emit (Vsnprintf (int 512 - int (length (header_text c))))
                   (emit (Snprintf (int 512)) s)))"
    using Logv_loop_fit [OF H, of 0 512 0 E s] fit
    by (simp add: kStackBufferSize_def INT_MAX_def)
  finally show ?thesis by simp
qed

text \<open>
  A text of 511 characters or more leaves the first pass through \<^verbatim>\<open>continue\<close>;
  the second pass has a buffer of that length plus 2, which fits.
\<close>

lemma Logv_dynamic:
  assumes H: "2 \<le> length (header_text c)" "length (header_text c) \<le> 60"
    and big: "511 \<le> length (rendered E c)"
    and max: "int (length (rendered E c)) + 2 \<le> INT_MAX"
  shows "Logv E c s =
           map_option (\<lambda>s4. Inr (emit DeleteArray s4))
             (commit E (record_bytes E c) (int (length (record_bytes E c)))
                (emit (Vsnprintf (int (length (rendered E c)) + 2 - int (length (header_text c))))
                   (emit (Snprintf (int (length (rendered E c)) + 2))
                      (emit (NewCharArray (int (length (rendered E c)) + 2))
                         (emit (Vsnprintf (512 - int (length (header_text c))))
                            (emit (Snprintf 512) s))))))"
proof -
  define H where "H = header_text c"
  obtain B where B: "vsnprintf_text E (format c) (arguments c) = Some B"
    using big H(2) by (cases "vsnprintf_text E (format c) (arguments c)") (auto simp: rendered_def)
  have T: "rendered E c = H @ B" by (simp add: rendered_def H_def B)
  have cmp: "int (length H) \<le> 60" "int (length H) < 512"
    "511 \<le> int (length H) + int (length B)"
    "\<not> INT_MAX < int (length B)" "\<not> INT_MAX < int (length H) + int (length B)"
    "\<not> INT_MAX < int (length H) + int (length B) + 2"
    using H(2) big max by (simp_all add: T H_def [symmetric])
  have "Logv E c s = Logv_loop E c 1 (int (length (rendered E c)) + 2)
                        (emit (Vsnprintf (512 - int (length (header_text c))))
                           (emit (Snprintf 512) s))"
    unfolding Logv_def
    apply (subst Logv_loop.simps)
    using cmp
    apply (simp add: kStackBufferSize_def Let_def c_snprintf_def c_vsnprintf_def B
        H_def [symmetric] kMaxThreadIdSize_def T)
    done
  also have "\<dots> = map_option (\<lambda>s4. Inr (emit DeleteArray s4))
             (commit E (record_bytes E c) (int (length (record_bytes E c)))
                (emit (Vsnprintf (int (length (rendered E c) + 2) - int (length (header_text c))))
                   (emit (Snprintf (int (length (rendered E c) + 2)))
                      (emit (NewCharArray (int (length (rendered E c)) + 2))
                         (emit (Vsnprintf (512 - int (length (header_text c))))
                            (emit (Snprintf 512) s))))))"
    using Logv_loop_fit [OF H, of 1 "length (rendered E c) + 2" "int (length (rendered E c)) + 2" E]
      max
    by simp
  finally show ?thesis by (simp add: ac_simps)
qed

subsection \<open>The header\<close>

lemma header_text_conv:
  "header_text c =
     conv_d True 4 (tm_year (now_components c) + 1900) @ ''/'' @
     conv_d True 2 (tm_mon (now_components c) + 1) @ ''/'' @
     conv_d True 2 (tm_mday (now_components c)) @ ''-'' @
     conv_d True 2 (tm_hour (now_components c)) @ '':'' @
     conv_d True 2 (tm_min (now_components c)) @ '':'' @
     conv_d True 2 (tm_sec (now_components c)) @ ''.'' @
     conv_d True 6 (tv_usec c) @ '' '' @ c_str (thread_id c) @ '' ''"
  by (simp add: header_text_def kHeaderFormat_def c_printf_def is_digit_def digit_val_def
      conv_s_def eval_nat_numeral)

lemma zpad_zero: "zpad k 0 = replicate k (CHR ''0'')"
  by (induction k) (simp_all add: digit_char_def replicate_append_same)

lemma length_zpad [simp]: "length (zpad k n) = k"
  by (induction k arbitrary: n) simp_all

lemma dec_zpad:
  "0 < k \<Longrightarrow> n < 10 ^ k \<Longrightarrow>
     length (dec n) \<le> k \<and> replicate (k - length (dec n)) (CHR ''0'') @ dec n = zpad k n"
proof (induction k arbitrary: n)
  case 0
  then show ?case by simp
next
  case (Suc k)
  show ?case
  proof (cases "n < 10")
    case True
    then show ?thesis
      by (subst (1 2 3) dec.simps) (simp add: zpad_zero)
  next
    case False
    then have k: "0 < k" using Suc.prems(2) by (cases k) simp_all
    have "n div 10 < 10 ^ k" using Suc.prems(2) by (simp add: less_mult_imp_div_less)
    from Suc.IH [OF k this] False show ?thesis
      by (subst (1 2 3) dec.simps) (simp add: Suc_diff_le)
  qed
qed

lemma conv_d_zpad:
  assumes "0 \<le> v" "v < 10 ^ k" "0 < k"
  shows "conv_d True k v = zpad k (nat v)"
proof -
  have "nat v < 10 ^ k" using assms(1,2) by (simp add: nat_less_iff)
  from dec_zpad [OF assms(3) this] assms(1) show ?thesis
    by (simp add: conv_d_def)
qed

lemma header_text_valid:
  assumes "valid_instant c"
  shows "header_text c =
     zpad 4 (nat (tm_year (now_components c) + 1900)) @ ''/'' @
     zpad 2 (nat (tm_mon (now_components c) + 1)) @ ''/'' @
     zpad 2 (nat (tm_mday (now_components c))) @ ''-'' @
     zpad 2 (nat (tm_hour (now_components c))) @ '':'' @
     zpad 2 (nat (tm_min (now_components c))) @ '':'' @
     zpad 2 (nat (tm_sec (now_components c))) @ ''.'' @
     zpad 6 (nat (tv_usec c)) @ '' '' @ c_str (thread_id c) @ '' ''"
  using assms unfolding header_text_conv valid_instant_def
  by (simp add: conv_d_zpad)

lemma length_c_str: "length (c_str t) \<le> length t"
  by (simp add: c_str_def length_takeWhile_le)

lemma length_thread_id: "length (c_str (thread_id c)) \<le> 32"
  using length_c_str [of "thread_id c"]
  by (simp add: thread_id_def kMaxThreadIdSize_def split: if_splits)

lemma header_text_nonempty: "header_text c \<noteq> []"
  by (simp add: header_text_conv)

lemma last_header_text: "last (header_text c) = CHR '' ''"
  by (simp add: header_text_conv)

lemma length_header_text:
  "valid_instant c \<Longrightarrow> length (header_text c) = 28 + length (c_str (thread_id c))"
  by (simp add: header_text_valid)

lemma header_bounds:
  assumes "valid_instant c"
  shows "2 \<le> length (header_text c)" "length (header_text c) \<le> 60"
  using length_header_text [OF assms] length_thread_id [of c]
  by simp_all

subsection \<open>The growth loop\<close>

lemma unat_kGrowth: "unat kGrowth = 2 ^ 25"
  by (simp add: kGrowth_def)

lemma emit_fields [simp]:
  "now_off_m (emit e s) = now_off_m s" "filename_m (emit e s) = filename_m s"
  "length_m (emit e s) = length_m s" "mmap_base_m (emit e s) = mmap_base_m s"
  "effects (emit e s) = effects s @ [e]"
  by (simp_all add: emit_def)

lemma room_emit [simp]: "room k (emit e s) = room k s"
  by (simp add: room_def)

lemma room_less: "room (a + b) s \<Longrightarrow> room a s"
  by (simp add: room_def)

lemma remap_fields:
  "now_off_m (remap E r fl s) = now_off_m s"
  "filename_m (remap E r fl s) = filename_m s"
  "effects (remap E r fl s) =
     effects s @ [PmemUnmap (mmap_base_m s) (length_m s), PmemMapFile (filename_m s) r fl kMode]"
  "length_m (remap E r fl s) =
     snd (pmem_map_file E (effects s @ [PmemUnmap (mmap_base_m s) (length_m s)])
            (filename_m s) r fl kMode)"
  "mmap_base_m (remap E r fl s) =
     fst (pmem_map_file E (effects s @ [PmemUnmap (mmap_base_m s) (length_m s)])
            (filename_m s) r fl kMode)"
  by (simp_all add: remap_def Let_def split: prod.split)

lemma needs_growth_nat:
  assumes "unat (now_off_m s) + k < 2 ^ 64"
  shows "now_off_m s + of_nat k > length_m s \<longleftrightarrow> unat (length_m s) < unat (now_off_m s) + k"
proof -
  have k: "unat (of_nat k :: 64 word) = k" using assms by (simp add: unat_of_nat)
  have "unat (now_off_m s + of_nat k) = unat (now_off_m s) + k"
    using assms k by (simp add: unat_add_lem [THEN iffD1])
  then show ?thesis by (simp add: word_less_nat_alt)
qed

lemma unat_advance:
  assumes "room k s"
  shows "unat (now_off_m s + of_nat k) = unat (now_off_m s) + k"
proof -
  have lt: "unat (now_off_m s) + k < 2 ^ 64" using assms by (simp add: room_def)
  then have "unat (of_nat k :: 64 word) = k" by (simp add: unat_of_nat)
  with lt show ?thesis by (simp add: unat_add_lem [THEN iffD1])
qed

lemma grow_step_now_off [simp]: "now_off_m (grow_step E s) = now_off_m s"
  by (simp add: grow_step_def remap_fields)

lemma grow_step_filename [simp]: "filename_m (grow_step E s) = filename_m s"
  by (simp add: grow_step_def remap_fields)

lemma grow_step_effects:
  "effects (grow_step E s) =
     effects s @ [PmemUnmap (mmap_base_m s) (length_m s),
                  PmemMapFile (filename_m s) (length_m s + kGrowth)
                    [PMEM_FILE_CREATE, PMEM_FILE_SPARSE] kMode]"
  by (simp add: grow_step_def remap_fields)

lemma grow_step_length:
  assumes "map_ok E" "unat (length_m s) + 2 ^ 25 < 2 ^ 64"
  shows "unat (length_m s) + 2 ^ 25 \<le> unat (length_m (grow_step E s))"
proof -
  have "unat (length_m s + kGrowth) = unat (length_m s) + 2 ^ 25"
    using assms(2) by (simp add: unat_add_lem [THEN iffD1] unat_kGrowth)
  moreover have "length_m s + kGrowth \<le> length_m (grow_step E s)"
    using assms(1) by (simp add: grow_step_def remap_fields map_ok_def)
  ultimately show ?thesis by (simp add: word_le_nat_alt)
qed

lemma map_exact_ok: "map_exact E \<Longrightarrow> map_ok E"
  by (simp add: map_exact_def map_ok_def)

lemma grow_step_length_exact:
  assumes "map_exact E" "unat (length_m s) + 2 ^ 25 < 2 ^ 64"
  shows "unat (length_m (grow_step E s)) = unat (length_m s) + 2 ^ 25"
proof -
  have "unat (length_m s + kGrowth) = unat (length_m s) + 2 ^ 25"
    using assms(2) by (simp add: unat_add_lem [THEN iffD1] unat_kGrowth)
  moreover have "length_m (grow_step E s) = length_m s + kGrowth"
    using assms(1) by (simp add: grow_step_def remap_fields map_exact_def)
  ultimately show ?thesis by simp
qed

text \<open>
  Termination: while the record does not fit, the request does not wrap and the
  capacity gains at least one increment, so the shortfall shrinks. The loop
  returns the state reached by iterating its body, having needed growth before
  each iteration and none after the last.
\<close>

lemma grow_total:
  assumes "map_ok E" "room k s"
  shows "\<exists>j. grow E (int k) s = Some ((grow_step E ^^ j) s) \<and>
             (\<forall>i<j. unat (length_m ((grow_step E ^^ i) s)) < unat (now_off_m s) + k) \<and>
             unat (now_off_m s) + k \<le> unat (length_m ((grow_step E ^^ j) s))"
  using assms(2)
proof (induction "unat (now_off_m s) + k - unat (length_m s)" arbitrary: s rule: less_induct)
  case less
  have fits: "unat (now_off_m s) + k < 2 ^ 64"
    using less.prems by (simp add: room_def)
  show ?case
  proof (cases "unat (length_m s) < unat (now_off_m s) + k")
    case False
    then have "grow E (int k) s = Some s"
      by (subst grow.simps) (simp add: needs_growth_nat [OF fits])
    with False show ?thesis
      by (intro exI [of _ 0]) simp
  next
    case True
    let ?s1 = "grow_step E s"
    have len: "unat (length_m s) + 2 ^ 25 \<le> unat (length_m ?s1)"
      using True less.prems by (intro grow_step_length [OF assms(1)]) (simp add: room_def)
    have room1: "room k ?s1"
      using less.prems by (simp add: room_def)
    have "unat (now_off_m ?s1) + k - unat (length_m ?s1)
            < unat (now_off_m s) + k - unat (length_m s)"
      using True len by simp
    from less.hyps [OF this room1]
    obtain j where j: "grow E (int k) ?s1 = Some ((grow_step E ^^ j) ?s1)"
      "\<forall>i<j. unat (length_m ((grow_step E ^^ i) ?s1)) < unat (now_off_m s) + k"
      "unat (now_off_m s) + k \<le> unat (length_m ((grow_step E ^^ j) ?s1))"
      by auto
    have "grow E (int k) s = grow E (int k) ?s1"
      using True by (subst grow.simps) (simp add: needs_growth_nat [OF fits])
    moreover have "\<forall>i<Suc j. unat (length_m ((grow_step E ^^ i) s)) < unat (now_off_m s) + k"
    proof (intro allI impI)
      fix i assume "i < Suc j"
      then show "unat (length_m ((grow_step E ^^ i) s)) < unat (now_off_m s) + k"
        using True j(2) by (cases i) (simp_all add: funpow_swap1)
    qed
    ultimately show ?thesis
      using j(1,3) by (intro exI [of _ "Suc j"]) (simp add: funpow_swap1)
  qed
qed

lemma funpow_now_off [simp]: "now_off_m ((grow_step E ^^ j) s) = now_off_m s"
  by (induction j) simp_all

lemma funpow_filename [simp]: "filename_m ((grow_step E ^^ j) s) = filename_m s"
  by (induction j) simp_all

lemma funpow_effects:
  "\<exists>G. effects ((grow_step E ^^ j) s) = effects s @ G \<and> list_all is_mapping_call G"
proof (induction j)
  case 0
  then show ?case by simp
next
  case (Suc j)
  then obtain G where
    "effects ((grow_step E ^^ j) s) = effects s @ G" "list_all is_mapping_call G"
    by blast
  then show ?case
    by (simp add: grow_step_effects)
qed

lemma funpow_length:
  assumes "map_ok E" "\<forall>i<j. unat (length_m ((grow_step E ^^ i) s)) + 2 ^ 25 < 2 ^ 64"
  shows "unat (length_m s) + j * 2 ^ 25 \<le> unat (length_m ((grow_step E ^^ j) s))"
  using assms(2)
proof (induction j)
  case 0
  then show ?case by simp
next
  case (Suc j)
  then have "unat (length_m s) + j * 2 ^ 25 \<le> unat (length_m ((grow_step E ^^ j) s))" by simp
  moreover have "unat (length_m ((grow_step E ^^ j) s)) + 2 ^ 25
                   \<le> unat (length_m (grow_step E ((grow_step E ^^ j) s)))"
    using Suc.prems by (intro grow_step_length [OF assms(1)]) simp
  ultimately show ?case by simp
qed

lemma funpow_length_exact:
  assumes "map_exact E" "\<forall>i<j. unat (length_m ((grow_step E ^^ i) s)) + 2 ^ 25 < 2 ^ 64"
  shows "unat (length_m ((grow_step E ^^ j) s)) = unat (length_m s) + j * 2 ^ 25"
  using assms(2)
proof (induction j)
  case 0
  then show ?case by simp
next
  case (Suc j)
  then have "unat (length_m ((grow_step E ^^ j) s)) = unat (length_m s) + j * 2 ^ 25" by simp
  moreover have "unat (length_m (grow_step E ((grow_step E ^^ j) s)))
                   = unat (length_m ((grow_step E ^^ j) s)) + 2 ^ 25"
    using Suc.prems by (intro grow_step_length_exact [OF assms(1)]) simp
  ultimately show ?case by simp
qed

lemma grow_result:
  assumes "map_ok E" "room k s"
  shows "\<exists>g G. grow E (int k) s = Some g \<and> now_off_m g = now_off_m s \<and>
             filename_m g = filename_m s \<and>
             unat (now_off_m s) + k \<le> unat (length_m g) \<and>
             unat (length_m s) \<le> unat (length_m g) \<and>
             effects g = effects s @ G \<and> list_all is_mapping_call G"
proof -
  from grow_total [OF assms] obtain j where j:
    "grow E (int k) s = Some ((grow_step E ^^ j) s)"
    "\<forall>i<j. unat (length_m ((grow_step E ^^ i) s)) < unat (now_off_m s) + k"
    "unat (now_off_m s) + k \<le> unat (length_m ((grow_step E ^^ j) s))"
    by blast
  have "\<forall>i<j. unat (length_m ((grow_step E ^^ i) s)) + 2 ^ 25 < 2 ^ 64"
    using j(2) assms(2) by (fastforce simp: room_def)
  from funpow_length [OF assms(1) this]
  have "unat (length_m s) \<le> unat (length_m ((grow_step E ^^ j) s))" by simp
  with j(1,3) funpow_effects [of j E s] show ?thesis by auto
qed

subsection \<open>One append, and a sequence of appends\<close>

lemma commit_result:
  assumes "map_ok E" "room (length R) s"
  shows "\<exists>s' G. commit E R (int (length R)) s = Some s' \<and>
           filename_m s' = filename_m s \<and>
           now_off_m s' = now_off_m s + of_nat (length R) \<and>
           unat (now_off_m s') = unat (now_off_m s) + length R \<and>
           unat (now_off_m s) + length R \<le> unat (length_m s') \<and>
           unat (length_m s) \<le> unat (length_m s') \<and>
           list_all is_mapping_call G \<and>
           effects s' = effects s @ G @ [PmemMemcpy (mmap_base_m s') (now_off_m s) R]"
proof -
  from grow_result [OF assms] obtain g G where g:
    "grow E (int (length R)) s = Some g" "now_off_m g = now_off_m s"
    "filename_m g = filename_m s"
    "unat (now_off_m s) + length R \<le> unat (length_m g)"
    "unat (length_m s) \<le> unat (length_m g)"
    "effects g = effects s @ G" "list_all is_mapping_call G"
    by blast
  show ?thesis
    using g unat_advance [OF assms(2)]
    by (intro exI [of _ "(emit (PmemMemcpy (mmap_base_m g) (now_off_m g) R) g)
                           \<lparr>now_off_m := now_off_m g + of_nat (length R)\<rparr>"] exI [of _ G])
       (simp add: commit_def)
qed

lemma Logv_result:
  assumes "map_ok E" "valid_instant c" "room (length (record_bytes E c)) s"
    and max: "int (length (rendered E c)) + 2 \<le> INT_MAX"
  shows "\<exists>s' G. Logv E c s = Some (Inr s') \<and>
           filename_m s' = filename_m s \<and>
           now_off_m s' = now_off_m s + of_nat (length (record_bytes E c)) \<and>
           unat (now_off_m s') = unat (now_off_m s) + length (record_bytes E c) \<and>
           unat (now_off_m s) + length (record_bytes E c) \<le> unat (length_m s') \<and>
           unat (length_m s) \<le> unat (length_m s') \<and>
           list_all is_mapping_call G \<and>
           effects s' = effects s @
             (if length (rendered E c) \<le> 510
              then [Snprintf 512, Vsnprintf (512 - int (length (header_text c)))]
              else [Snprintf 512, Vsnprintf (512 - int (length (header_text c))),
                    NewCharArray (int (length (rendered E c)) + 2),
                    Snprintf (int (length (rendered E c)) + 2),
                    Vsnprintf (int (length (rendered E c)) + 2 - int (length (header_text c)))]) @
             G @ [PmemMemcpy (mmap_base_m s') (now_off_m s) (record_bytes E c)] @
             (if length (rendered E c) \<le> 510 then [] else [DeleteArray])"
proof (cases "length (rendered E c) \<le> 510")
  case True
  let ?s0 = "emit (Vsnprintf (512 - int (length (header_text c)))) (emit (Snprintf 512) s)"
  have "room (length (record_bytes E c)) ?s0" using assms(3) by simp
  from commit_result [OF assms(1) this] obtain s' G where
    "commit E (record_bytes E c) (int (length (record_bytes E c))) ?s0 = Some s'"
    "filename_m s' = filename_m s"
    "now_off_m s' = now_off_m s + of_nat (length (record_bytes E c))"
    "unat (now_off_m s') = unat (now_off_m s) + length (record_bytes E c)"
    "unat (now_off_m s) + length (record_bytes E c) \<le> unat (length_m s')"
    "unat (length_m s) \<le> unat (length_m s')"
    "list_all is_mapping_call G"
    "effects s' = effects ?s0 @ G @ [PmemMemcpy (mmap_base_m s') (now_off_m s) (record_bytes E c)]"
    by auto
  then show ?thesis
    using True Logv_stack [OF header_bounds [OF assms(2)] True, of s]
    by (intro exI [of _ s'] exI [of _ G]) simp
next
  case False
  let ?s0 = "emit (Vsnprintf (int (length (rendered E c)) + 2 - int (length (header_text c))))
                   (emit (Snprintf (int (length (rendered E c)) + 2))
                      (emit (NewCharArray (int (length (rendered E c)) + 2))
                         (emit (Vsnprintf (512 - int (length (header_text c))))
                            (emit (Snprintf 512) s))))"
  have big: "511 \<le> length (rendered E c)" using False by simp
  have "room (length (record_bytes E c)) ?s0" using assms(3) by simp
  from commit_result [OF assms(1) this] obtain s' G where
    "commit E (record_bytes E c) (int (length (record_bytes E c))) ?s0 = Some s'"
    "filename_m s' = filename_m s"
    "now_off_m s' = now_off_m s + of_nat (length (record_bytes E c))"
    "unat (now_off_m s') = unat (now_off_m s) + length (record_bytes E c)"
    "unat (now_off_m s) + length (record_bytes E c) \<le> unat (length_m s')"
    "unat (length_m s) \<le> unat (length_m s')"
    "list_all is_mapping_call G"
    "effects s' = effects ?s0 @ G @ [PmemMemcpy (mmap_base_m s') (now_off_m s) (record_bytes E c)]"
    by auto
  then show ?thesis
    using False Logv_dynamic [OF header_bounds [OF assms(2)] big max, of s]
    by (intro exI [of _ "emit DeleteArray s'"] exI [of _ G]) simp
qed

lemma copies_append [simp]: "copies (xs @ ys) = copies xs @ copies ys"
  by (induction xs rule: copies.induct) simp_all

lemma copies_mapping_calls: "list_all is_mapping_call G \<Longrightarrow> copies G = []"
  by (induction G rule: copies.induct) simp_all

lemma heap_mapping_calls: "list_all is_mapping_call G \<Longrightarrow> filter is_heap_event G = []"
  by (induction G rule: copies.induct) simp_all

lemma layout_lower: "lo \<le> off \<Longrightarrow> list_all (\<lambda>(b, t). lo \<le> b) (layout off rs)"
  by (induction rs arbitrary: off) simp_all

lemma apart_layout: "apart (layout off rs)"
  by (induction rs arbitrary: off) (simp_all add: layout_lower)

lemma Logv_seq_result:
  assumes "map_ok E"
  shows "list_all (loggable E) cs \<Longrightarrow> room (total_bytes E cs) s \<Longrightarrow>
         \<exists>s'. Logv_seq E cs s = Some (Inr s') \<and> filename_m s' = filename_m s \<and>
              unat (now_off_m s') = unat (now_off_m s) + total_bytes E cs \<and>
              unat (length_m s) \<le> unat (length_m s') \<and>
              (cs \<noteq> [] \<longrightarrow> unat (now_off_m s') \<le> unat (length_m s')) \<and>
              copies (effects s') =
                copies (effects s) @ layout (unat (now_off_m s)) (map (record_bytes E) cs)"
proof (induction cs arbitrary: s)
  case Nil
  then show ?case by (simp add: total_bytes_def)
next
  case (Cons c cs)
  have "loggable E c" and rest: "list_all (loggable E) cs"
    using Cons.prems(1) by simp_all
  then have valid: "valid_instant c" "list_all (loggable E) cs"
    and max: "int (length (rendered E c)) + 2 \<le> INT_MAX"
    using rest by (simp_all add: loggable_def)
  have room1: "room (length (record_bytes E c)) s"
    using Cons.prems(2) by (simp add: total_bytes_def room_less)
  from Logv_result [OF assms valid(1) room1 max] obtain s1 G where s1:
    "Logv E c s = Some (Inr s1)" "filename_m s1 = filename_m s"
    "unat (now_off_m s1) = unat (now_off_m s) + length (record_bytes E c)"
    "unat (now_off_m s) + length (record_bytes E c) \<le> unat (length_m s1)"
    "unat (length_m s) \<le> unat (length_m s1)"
    "list_all is_mapping_call G"
    "effects s1 = effects s @
             (if length (rendered E c) \<le> 510
              then [Snprintf 512, Vsnprintf (512 - int (length (header_text c)))]
              else [Snprintf 512, Vsnprintf (512 - int (length (header_text c))),
                    NewCharArray (int (length (rendered E c)) + 2),
                    Snprintf (int (length (rendered E c)) + 2),
                    Vsnprintf (int (length (rendered E c)) + 2 - int (length (header_text c)))]) @
             G @ [PmemMemcpy (mmap_base_m s1) (now_off_m s) (record_bytes E c)] @
             (if length (rendered E c) \<le> 510 then [] else [DeleteArray])"
    by blast
  have cp: "copies (effects s1) = copies (effects s) @ [(unat (now_off_m s), record_bytes E c)]"
    by (simp add: s1(7) copies_mapping_calls [OF s1(6)])
  have room2: "room (total_bytes E cs) s1"
    using Cons.prems(2) s1(3) by (simp add: total_bytes_def room_def)
  from Cons.IH [OF valid(2) room2] obtain s' where s':
    "Logv_seq E cs s1 = Some (Inr s')" "filename_m s' = filename_m s1"
    "unat (now_off_m s') = unat (now_off_m s1) + total_bytes E cs"
    "unat (length_m s1) \<le> unat (length_m s')"
    "cs \<noteq> [] \<longrightarrow> unat (now_off_m s') \<le> unat (length_m s')"
    "copies (effects s') =
       copies (effects s1) @ layout (unat (now_off_m s1)) (map (record_bytes E) cs)"
    by blast
  have cap: "unat (now_off_m s') \<le> unat (length_m s')"
  proof (cases "cs = []")
    case True
    then show ?thesis using s'(3,4) s1(3,4) by (simp add: total_bytes_def)
  next
    case False
    then show ?thesis using s'(5) by simp
  qed
  show ?case
    using s1(1,2,3,5) s' cap cp
    by (intro exI [of _ s']) (simp add: total_bytes_def)
qed

text \<open>
  Past the bound of \<open>loggable\<close> the call has no defined result: a text that
  \<^verbatim>\<open>vsnprintf\<close> can still report, but whose length with the header and the 2
  of line 113 exceeds \<open>INT_MAX\<close>, overflows \<^verbatim>\<open>buffer_offset\<close> or
  \<^verbatim>\<open>dynamic_buffer_size\<close>.
\<close>

lemma snd_c_snprintf: "c_snprintf b p n t = (b', r) \<Longrightarrow> r = int (length t)"
  by (auto simp: c_snprintf_def)

lemma snd_c_vsnprintf:
  "int (length t) \<le> INT_MAX \<Longrightarrow> c_vsnprintf b p n (Some t) = (b', r) \<Longrightarrow> r = int (length t)"
  by (auto simp: c_vsnprintf_def c_snprintf_def)

lemma Logv_int_overflow:
  assumes "valid_instant c" "vsnprintf_text E (format c) (arguments c) = Some body"
    and "int (length body) \<le> INT_MAX"
    and "INT_MAX < int (length (header_text c)) + int (length body) + 2"
  shows "Logv E c s = Some (Inl UndefinedBehaviour)"
proof -
  note H = header_bounds [OF assms(1)]
  have big: "511 \<le> int (length (header_text c)) + int (length body)"
    using assms(4) by (simp add: INT_MAX_def)
  show ?thesis
    unfolding Logv_def Logv_loop.simps [of E c 0]
    using H assms(2-4) big
    by (auto simp: Let_def kStackBufferSize_def kMaxThreadIdSize_def
          dest!: snd_c_snprintf snd_c_vsnprintf [OF assms(3)] split: prod.splits)
qed

subsection \<open>The text and the bytes of a record\<close>

lemma header_length_ge: "8 \<le> length (header_text c)"
  by (simp add: header_text_conv)

lemma rendered_not_Nil [simp]: "rendered E c \<noteq> []"
  using header_length_ge [of c] by (intro rendered_nonempty) simp

lemma rendered_success:
  "vsnprintf_text E (format c) (arguments c) = Some body \<Longrightarrow> rendered E c = header_text c @ body"
  by (simp add: rendered_def)

lemma rendered_failure:
  "vsnprintf_text E (format c) (arguments c) = None \<Longrightarrow> rendered E c = butlast (header_text c)"
  by (simp add: rendered_def)

lemma small_fits_int: "length (rendered E c) \<le> 510 \<Longrightarrow> int (length (rendered E c)) + 2 \<le> INT_MAX"
  by (simp add: INT_MAX_def)

lemma trailing_newlines_append:
  assumes "H \<noteq> []" "last H \<noteq> newline"
  shows "trailing_newlines (H @ B) = trailing_newlines B"
proof -
  obtain hs h where H: "H = hs @ [h]" using assms(1) by (cases H rule: rev_cases) auto
  have h: "h \<noteq> newline" using assms(2) H by simp
  have "takeWhile (\<lambda>c. c = newline) (rev B @ h # rev hs) = takeWhile (\<lambda>c. c = newline) (rev B)"
  proof (cases "\<forall>x\<in>set (rev B). x = newline")
    case True
    then have tw: "takeWhile (\<lambda>c. c = newline) (rev B) = rev B"
      by (simp add: takeWhile_eq_all_conv)
    have "takeWhile (\<lambda>c. c = newline) (rev B @ h # rev hs) = rev B"
      using True h by (simp add: takeWhile_append)
    then show ?thesis by (simp only: tw)
  next
    case False
    then show ?thesis by (auto simp: takeWhile_append)
  qed
  then show ?thesis by (simp add: trailing_newlines_def H)
qed

lemma trailing_newlines_snoc:
  "trailing_newlines (t @ [c]) = (if c = newline then Suc (trailing_newlines t) else 0)"
  by (simp add: trailing_newlines_def)

lemma trailing_newlines_last:
  "t \<noteq> [] \<Longrightarrow> last t = newline \<Longrightarrow> 1 \<le> trailing_newlines t"
  by (cases t rule: rev_cases) (simp_all add: trailing_newlines_snoc)

lemma trailing_newlines_not_last:
  "t = [] \<or> last t \<noteq> newline \<Longrightarrow> trailing_newlines t = 0"
  by (cases t rule: rev_cases) (auto simp: trailing_newlines_snoc trailing_newlines_def)

lemma space_not_newline: "CHR '' '' \<noteq> newline"
  by (simp add: newline_def)

lemma trailing_newlines_rendered:
  assumes "vsnprintf_text E (format c) (arguments c) = Some body"
  shows "trailing_newlines (rendered E c) = trailing_newlines body"
  unfolding rendered_success [OF assms]
  by (rule trailing_newlines_append)
     (simp_all add: header_text_nonempty last_header_text space_not_newline)

lemma record_bytes_line_break:
  "last (record_bytes E c) = newline"
  "trailing_newlines (record_bytes E c) = max 1 (trailing_newlines (rendered E c))"
proof -
  let ?T = "rendered E c"
  show "last (record_bytes E c) = newline"
    by (simp add: record_bytes_def)
  show "trailing_newlines (record_bytes E c) = max 1 (trailing_newlines ?T)"
  proof (cases "last ?T = newline")
    case True
    with trailing_newlines_last [of ?T] show ?thesis
      by (simp add: record_bytes_def)
  next
    case False
    then have "trailing_newlines ?T = 0"
      by (intro trailing_newlines_not_last) simp
    with False show ?thesis
      by (simp add: record_bytes_def trailing_newlines_snoc)
  qed
qed

lemma record_bytes_empty_message:
  assumes "vsnprintf_text E (format c) (arguments c) = Some []"
  shows "record_bytes E c = header_text c @ [newline]"
  by (simp add: record_bytes_def rendered_success [OF assms] last_header_text space_not_newline)

lemma Logv_copies:
  assumes "map_ok E" "valid_instant c" "room (length (record_bytes E c)) s"
    and "int (length (rendered E c)) + 2 \<le> INT_MAX"
  shows "\<exists>s'. Logv E c s = Some (Inr s') \<and>
           unat (now_off_m s') = unat (now_off_m s) + length (record_bytes E c) \<and>
           copies (effects s') = copies (effects s) @ [(unat (now_off_m s), record_bytes E c)]"
proof -
  from Logv_result [OF assms] obtain s' G where s':
    "Logv E c s = Some (Inr s')"
    "unat (now_off_m s') = unat (now_off_m s) + length (record_bytes E c)"
    "list_all is_mapping_call G"
    "effects s' = effects s @
             (if length (rendered E c) \<le> 510
              then [Snprintf 512, Vsnprintf (512 - int (length (header_text c)))]
              else [Snprintf 512, Vsnprintf (512 - int (length (header_text c))),
                    NewCharArray (int (length (rendered E c)) + 2),
                    Snprintf (int (length (rendered E c)) + 2),
                    Vsnprintf (int (length (rendered E c)) + 2 - int (length (header_text c)))]) @
             G @ [PmemMemcpy (mmap_base_m s') (now_off_m s) (record_bytes E c)] @
             (if length (rendered E c) \<le> 510 then [] else [DeleteArray])"
    by blast
  have "copies (effects s') = copies (effects s) @ [(unat (now_off_m s), record_bytes E c)]"
    by (simp add: s'(4) copies_mapping_calls [OF s'(3)])
  with s'(1,2) show ?thesis by blast
qed

lemma capacity_ok_nat: "capacity_ok s \<longleftrightarrow> unat (now_off_m s) \<le> unat (length_m s)"
  by (simp add: capacity_ok_def word_le_nat_alt)

lemma grow_step_unfold:
  "grow_step E t =
     (case pmem_map_file E (effects t @ [PmemUnmap (mmap_base_m t) (length_m t)]) (filename_m t)
             (length_m t + kGrowth) [PMEM_FILE_CREATE, PMEM_FILE_SPARSE] kMode of
        (base, new_size) \<Rightarrow>
          t\<lparr>mmap_base_m := base, length_m := new_size,
            effects := effects t @
              [PmemUnmap (mmap_base_m t) (length_m t),
               PmemMapFile (filename_m t) (length_m t + kGrowth)
                 [PMEM_FILE_CREATE, PMEM_FILE_SPARSE] kMode]\<rparr>)"
  by (simp add: grow_step_def remap_def emit_def Let_def split: prod.split)

lemma c_format_literal:
  "CHR ''%'' \<notin> set fmt \<Longrightarrow> c_format Literal fmt args = Some fmt"
  by (induction fmt) auto

lemma c_printf_literal: "CHR ''%'' \<notin> set fmt \<Longrightarrow> c_printf fmt args = Some fmt"
  by (simp add: c_printf_def c_format_literal)

lemma header_text_message [simp]:
  "header_text (c\<lparr>format := f, arguments := a\<rparr>) = header_text c"
  by (simp add: header_text_def thread_id_def)

lemma thread_id_take: "thread_id c = take 32 (thread_stream c)"
  by (simp add: thread_id_def kMaxThreadIdSize_def)

lemma c_str_no_NUL: "NUL \<notin> set t \<Longrightarrow> c_str t = t"
  by (auto simp: c_str_def takeWhile_eq_all_conv)

lemma set_c_str: "set (c_str t) \<subseteq> set t"
  by (auto simp: c_str_def dest: set_takeWhileD)

lemma printf_x5: "c_printf ''%s=%d'' [ArgStr ''x'', ArgInt 5] = Some ''x=5''"
  by (simp add: c_printf_def conv_s_def conv_d_def dec.simps digit_char_def is_digit_def digit_val_def)

lemma digit_char_not_newline: "d < 10 \<Longrightarrow> digit_char d \<noteq> newline"
proof -
  assume "d < 10"
  then have "d \<in> {0, 1, 2, 3, 4, 5, 6, 7, 8, 9}" by auto
  then show ?thesis by (auto simp: digit_char_def newline_def)
qed

lemma newline_zpad: "newline \<notin> set (zpad k n)"
proof (induction k arbitrary: n)
  case 0
  then show ?case by simp
next
  case (Suc k)
  have "n mod 10 < 10" by simp
  from digit_char_not_newline [OF this] Suc show ?case by auto
qed

lemma newline_stamp: "newline \<notin> set (stamp c)"
  by (simp add: stamp_def newline_zpad) (simp add: newline_def)

lemma length_stamp: "length (stamp c) = 26"
  by (simp add: stamp_def)

lemma rendered_x5_form:
  assumes "valid_instant c" "format c = ''%s=%d''" "arguments c = [ArgStr ''x'', ArgInt 5]"
    "vsnprintf_text E = c_printf"
  shows "rendered E c = stamp c @ '' '' @ c_str (take 32 (thread_stream c)) @ '' x=5''"
  using assms(2-4) header_text_valid [OF assms(1)]
  by (simp add: rendered_def printf_x5 stamp_def thread_id_take)

lemma record_x5_form:
  assumes "valid_instant c" "format c = ''%s=%d''" "arguments c = [ArgStr ''x'', ArgInt 5]"
    "vsnprintf_text E = c_printf"
  shows "record_bytes E c =
           stamp c @ '' '' @ c_str (take 32 (thread_stream c)) @ '' x=5'' @ [newline]"
  by (simp add: record_bytes_def rendered_x5_form [OF assms] newline_def)

subsection \<open>The concrete inputs\<close>

lemma env_exact_ok: "map_ok env_exact"
  by (simp add: map_ok_def env_exact_def)

lemma env_exact_exact: "map_exact env_exact"
  by (simp add: map_exact_def env_exact_def)

lemma env_coarse_ok: "map_ok env_coarse"
  by (simp add: map_ok_def env_coarse_def)

lemma room_logger0: "room 20 logger0"
  by (simp add: room_def logger0_def)

lemma needs_growth_logger0: "length_m logger0 < now_off_m logger0 + of_int (int 20)"
  by (simp add: logger0_def)

lemma capacity_logger0: "capacity_ok logger0"
  by (simp add: capacity_ok_def logger0_def)

lemma call_x5_valid: "valid_instant call_x5"
  by (simp add: valid_instant_def call_x5_def instant0_def)

lemma header_x5: "header_text call_x5 = ''2024/03/09-07:05:03.000042 140213 ''"
  by code_simp

lemma stamp_x5: "stamp call_x5 = ''2024/03/09-07:05:03.000042''"
  by code_simp

lemma rendered_x5: "rendered env_exact call_x5 = ''2024/03/09-07:05:03.000042 140213 x=5''"
  by code_simp

lemma record_x5: "record_bytes env_exact call_x5 = ''2024/03/09-07:05:03.000042 140213 x=5'' @ [newline]"
  by code_simp

lemma room_x5: "room (length (record_bytes env_exact call_x5)) logger0"
  by (simp add: record_x5 room_def logger0_def)

lemma short_x5: "int (length (rendered env_exact call_x5)) \<le> kStackBufferSize - 2"
  by (simp add: rendered_x5 kStackBufferSize_def)

lemma max_x5: "int (length (rendered env_exact call_x5)) + 2 \<le> INT_MAX"
  by (simp add: rendered_x5 INT_MAX_def)

lemma x5_loggable: "loggable env_exact call_x5"
  by (simp add: loggable_def call_x5_valid max_x5)

lemma call_blank_lines_valid: "valid_instant call_blank_lines"
  by (simp add: valid_instant_def call_blank_lines_def call_x5_def instant0_def)

lemma rendered_blank_lines:
  "rendered env_exact call_blank_lines =
     ''2024/03/09-07:05:03.000042 140213 a'' @ [newline, newline]"
  by code_simp

lemma record_blank_lines:
  "record_bytes env_exact call_blank_lines =
     ''2024/03/09-07:05:03.000042 140213 a'' @ [newline, newline]"
  by code_simp

lemma max_blank_lines: "int (length (rendered env_exact call_blank_lines)) + 2 \<le> INT_MAX"
  by (simp add: rendered_blank_lines INT_MAX_def)

lemma room_blank_lines: "room (length (record_bytes env_exact call_blank_lines)) logger0"
  by (simp add: record_blank_lines room_def logger0_def)

lemma calls_loggable: "list_all (loggable env_exact) [call_x5, call_blank_lines]"
  by (simp add: loggable_def call_x5_valid call_blank_lines_valid max_x5 max_blank_lines)

lemma total_two_calls: "total_bytes env_exact [call_x5, call_blank_lines] = 75"
  by (simp add: total_bytes_def record_x5 record_blank_lines)

lemma room_two_calls: "room (total_bytes env_exact [call_x5, call_blank_lines]) logger0"
  by (simp add: total_two_calls room_def logger0_def)

lemma reopened0:
  "PmdkLogger env_exact ''/mnt/pmem/LOG'' 0x7f0000000000 100 True =
     Inr \<lparr>filename_m = ''/mnt/pmem/LOG'', length_m = 100, mmap_base_m = 0x7f0000000000,
          now_off_m = 100, effects = []\<rparr>"
  by (simp add: PmdkLogger_def env_exact_def)

lemma room_reopened0:
  "room (total_bytes env_exact [call_x5, call_blank_lines])
     \<lparr>filename_m = ''/mnt/pmem/LOG'', length_m = 100, mmap_base_m = 0x7f0000000000,
      now_off_m = 100, effects = []\<rparr>"
  by (simp add: total_two_calls room_def)

lemma call_long_valid: "valid_instant call_long"
  by (simp add: valid_instant_def call_long_def call_x5_def instant0_def)

lemma body_long:
  "vsnprintf_text env_exact (format call_long) (arguments call_long) =
     Some (replicate 600 (CHR ''a'') @ [newline, newline])"
  by (simp add: env_exact_def call_long_def c_printf_literal newline_def)

lemma trailing_long: "trailing_newlines (replicate 600 (CHR ''a'') @ [newline, newline]) = 2"
  by (simp add: trailing_newlines_def newline_def)

lemma header_long: "header_text call_long = ''2024/03/09-07:05:03.000042 140213 ''"
  by (simp add: call_long_def header_x5)

lemma rendered_long: "length (rendered env_exact call_long) = 636"
  by (simp add: rendered_success [OF body_long] header_long)

lemma record_long_length: "length (record_bytes env_exact call_long) = 636"
  using rendered_long by (simp add: record_bytes_def rendered_success [OF body_long])

lemma room_long: "room (length (record_bytes env_exact call_long)) logger0"
  by (simp add: record_long_length room_def logger0_def)

lemma long_is_long: "kStackBufferSize - 2 < int (length (rendered env_exact call_long))"
  by (simp add: rendered_long kStackBufferSize_def)

lemma max_long: "int (length (rendered env_exact call_long)) + 2 \<le> INT_MAX"
  by (simp add: rendered_long INT_MAX_def)

lemma call_empty_valid: "valid_instant call_empty"
  by (simp add: valid_instant_def call_empty_def call_x5_def instant0_def)

lemma body_empty: "vsnprintf_text env_exact (format call_empty) (arguments call_empty) = Some []"
  by (simp add: env_exact_def call_empty_def c_printf_def)

lemma header_empty: "header_text call_empty = ''2024/03/09-07:05:03.000042 140213 ''"
  by (simp add: call_empty_def header_x5)

lemma record_empty:
  "record_bytes env_exact call_empty = ''2024/03/09-07:05:03.000042 140213 '' @ [newline]"
  by (simp add: record_bytes_empty_message [OF body_empty] header_empty)

lemma room_empty: "room (length (record_bytes env_exact call_empty)) logger0"
  by (simp add: record_empty room_def logger0_def)

lemma max_empty: "int (length (rendered env_exact call_empty)) + 2 \<le> INT_MAX"
  by (simp add: rendered_success [OF body_empty] header_empty INT_MAX_def)

lemma call_percent_valid: "valid_instant call_percent"
  by (simp add: valid_instant_def call_percent_def call_x5_def instant0_def)

lemma body_percent: "vsnprintf_text env_exact (format call_percent) (arguments call_percent) = None"
  by (simp add: env_exact_def call_percent_def c_printf_def)

lemma header_percent: "header_text call_percent = ''2024/03/09-07:05:03.000042 140213 ''"
  by (simp add: call_percent_def header_x5)

lemma rendered_percent: "rendered env_exact call_percent = ''2024/03/09-07:05:03.000042 140213''"
  by (simp add: rendered_failure [OF body_percent] header_percent)

lemma record_percent:
  "record_bytes env_exact call_percent = ''2024/03/09-07:05:03.000042 140213'' @ [newline]"
  by (simp add: record_bytes_def rendered_percent newline_def)

lemma room_percent: "room (length (record_bytes env_exact call_percent)) logger0"
  by (simp add: record_percent room_def logger0_def)

lemma max_percent: "int (length (rendered env_exact call_percent)) + 2 \<le> INT_MAX"
  by (simp add: rendered_percent INT_MAX_def)


section \<open>The claims\<close>

text \<open>
  C10. On every append, when the record is copied into the mapped region the
  destination range lies within the mapped capacity. The growth loop returns a
  state \<open>g\<close> whose offset is the one the append started with and whose capacity
  covers the offset plus the length of the record; the copy is made at \<open>g\<close>'s
  base and offset, and only then is the offset advanced. (The instant is valid,
  the mapping service grants at least what is requested, sizes stay clear of
  \<open>2^64\<close>, and the formatted text with its two spare bytes fits an \<^verbatim>\<open>int\<close>.)
\<close>

theorem copy_within_capacity:
  assumes "map_ok E" "valid_instant c" "room (length (record_bytes E c)) s"
    and "int (length (rendered E c)) + 2 \<le> INT_MAX"
  shows "\<exists>F g D. grow E (int (length (record_bytes E c))) (s\<lparr>effects := effects s @ F\<rparr>) = Some g \<and>
           filter is_mapping_call F = [] \<and> (D = [] \<or> D = [DeleteArray]) \<and>
           now_off_m g = now_off_m s \<and>
           unat (now_off_m g) + length (record_bytes E c) \<le> unat (length_m g) \<and>
           Logv E c s =
             Some (Inr (g\<lparr>now_off_m := now_off_m g + of_nat (length (record_bytes E c)),
                          effects := effects g @
                            PmemMemcpy (mmap_base_m g) (now_off_m g) (record_bytes E c) # D\<rparr>))"
proof -
  let ?R = "record_bytes E c"
  let ?F1 = "[Snprintf 512, Vsnprintf (512 - int (length (header_text c)))]"
  let ?F2 = "?F1 @ [NewCharArray (int (length (rendered E c)) + 2),
                    Snprintf (int (length (rendered E c)) + 2),
                    Vsnprintf (int (length (rendered E c)) + 2 - int (length (header_text c)))]"
  have grows: "\<exists>g. grow E (int (length ?R)) (s\<lparr>effects := effects s @ F\<rparr>) = Some g \<and>
                 now_off_m g = now_off_m s \<and> unat (now_off_m g) + length ?R \<le> unat (length_m g)" for F
  proof -
    have "room (length ?R) (s\<lparr>effects := effects s @ F\<rparr>)"
      using assms(3) by (simp add: room_def)
    from grow_result [OF assms(1) this] show ?thesis by auto
  qed
  show ?thesis
  proof (cases "length (rendered E c) \<le> 510")
    case True
    from grows [of ?F1] obtain g where g:
      "grow E (int (length ?R)) (s\<lparr>effects := effects s @ ?F1\<rparr>) = Some g"
      "now_off_m g = now_off_m s" "unat (now_off_m g) + length ?R \<le> unat (length_m g)"
      by blast
    have "Logv E c s = Some (Inr (g\<lparr>now_off_m := now_off_m g + of_nat (length ?R),
             effects := effects g @ PmemMemcpy (mmap_base_m g) (now_off_m g) ?R # []\<rparr>))"
      using g(1) by (simp add: Logv_stack [OF header_bounds [OF assms(2)] True] commit_def emit_def)
    with g show ?thesis
      by (intro exI [of _ ?F1] exI [of _ g] exI [of _ "[]"]) simp
  next
    case False
    then have big: "511 \<le> length (rendered E c)" by simp
    from grows [of ?F2] obtain g where g:
      "grow E (int (length ?R)) (s\<lparr>effects := effects s @ ?F2\<rparr>) = Some g"
      "now_off_m g = now_off_m s" "unat (now_off_m g) + length ?R \<le> unat (length_m g)"
      by blast
    have "Logv E c s = Some (Inr (g\<lparr>now_off_m := now_off_m g + of_nat (length ?R),
             effects := effects g @ PmemMemcpy (mmap_base_m g) (now_off_m g) ?R # [DeleteArray]\<rparr>))"
      using g(1)
      by (simp add: Logv_dynamic [OF header_bounds [OF assms(2)] big assms(4)] commit_def emit_def)
    with g show ?thesis
      by (intro exI [of _ ?F2] exI [of _ g] exI [of _ "[DeleteArray]"]) simp
  qed
qed

theorem copy_within_capacity_witness:
  "map_ok env_exact \<and> valid_instant call_x5 \<and>
   room (length (record_bytes env_exact call_x5)) logger0 \<and>
   int (length (rendered env_exact call_x5)) + 2 \<le> INT_MAX \<and>
   (\<exists>F g D. grow env_exact (int (length (record_bytes env_exact call_x5)))
              (logger0\<lparr>effects := effects logger0 @ F\<rparr>) = Some g \<and>
           filter is_mapping_call F = [] \<and> (D = [] \<or> D = [DeleteArray]) \<and>
           now_off_m g = now_off_m logger0 \<and>
           unat (now_off_m g) + length (record_bytes env_exact call_x5) \<le> unat (length_m g) \<and>
           Logv env_exact call_x5 logger0 =
             Some (Inr (g\<lparr>now_off_m := now_off_m g + of_nat (length (record_bytes env_exact call_x5)),
                          effects := effects g @
                            PmemMemcpy (mmap_base_m g) (now_off_m g) (record_bytes env_exact call_x5) # D\<rparr>)))"
  using copy_within_capacity [OF env_exact_ok call_x5_valid room_x5 max_x5]
    env_exact_ok call_x5_valid room_x5 max_x5 by blast

text \<open>
  C2. When a record does not fit, the growth loop runs at least once and returns
  the state reached by iterating its body: each iteration unmaps the current
  mapping, maps the same file again asking for the current capacity plus 32 MiB
  with the create and sparse flags, and adopts the base and the length the
  service reports. It stops at the first state whose capacity covers the offset
  plus the record. Each iteration gains at least 32 MiB; the gain is exactly the
  number of iterations times 32 MiB when the service reports exactly the length
  asked for. It need not be a multiple of 32 MiB otherwise: the last theorem
  below runs the loop against a service that maps 64 MiB at least.
\<close>

theorem growth_loop_result:
  assumes "map_ok E" "room k s" "length_m s < now_off_m s + of_int (int k)"
  shows "\<exists>j. 0 < j \<and> grow E (int k) s = Some ((grow_step E ^^ j) s) \<and>
           (\<forall>i<j. length_m ((grow_step E ^^ i) s) < now_off_m s + of_int (int k)) \<and>
           \<not> length_m ((grow_step E ^^ j) s) < now_off_m s + of_int (int k) \<and>
           unat (now_off_m s) + k \<le> unat (length_m ((grow_step E ^^ j) s)) \<and>
           unat (length_m s) + j * 2 ^ 25 \<le> unat (length_m ((grow_step E ^^ j) s)) \<and>
           (map_exact E \<longrightarrow>
              unat (length_m ((grow_step E ^^ j) s)) = unat (length_m s) + j * 2 ^ 25) \<and>
           (\<forall>t. grow_step E t =
              (case pmem_map_file E (effects t @ [PmemUnmap (mmap_base_m t) (length_m t)])
                      (filename_m t) (length_m t + kGrowth)
                      [PMEM_FILE_CREATE, PMEM_FILE_SPARSE] kMode of
                 (base, new_size) \<Rightarrow>
                   t\<lparr>mmap_base_m := base, length_m := new_size,
                     effects := effects t @
                       [PmemUnmap (mmap_base_m t) (length_m t),
                        PmemMapFile (filename_m t) (length_m t + kGrowth)
                          [PMEM_FILE_CREATE, PMEM_FILE_SPARSE] kMode]\<rparr>))"
proof -
  have fits: "unat (now_off_m s) + k < 2 ^ 64" using assms(2) by (simp add: room_def)
  have guard: "length_m t < now_off_m s + of_nat k \<longleftrightarrow> unat (length_m t) < unat (now_off_m s) + k"
    if "now_off_m t = now_off_m s" for t
    using needs_growth_nat [of t k] that fits by simp
  from grow_total [OF assms(1,2)] obtain j where j:
    "grow E (int k) s = Some ((grow_step E ^^ j) s)"
    "\<forall>i<j. unat (length_m ((grow_step E ^^ i) s)) < unat (now_off_m s) + k"
    "unat (now_off_m s) + k \<le> unat (length_m ((grow_step E ^^ j) s))"
    by blast
  have pos: "0 < j"
  proof (rule ccontr)
    assume "\<not> 0 < j"
    then have "j = 0" by simp
    with j(3) assms(3) guard [of s] show False by simp
  qed
  have nowrap: "\<forall>i<j. unat (length_m ((grow_step E ^^ i) s)) + 2 ^ 25 < 2 ^ 64"
    using j(2) assms(2) by (fastforce simp: room_def)
  have g1: "\<forall>i<j. length_m ((grow_step E ^^ i) s) < now_off_m s + of_int (int k)"
    using j(2) by (simp add: guard)
  have g2: "\<not> length_m ((grow_step E ^^ j) s) < now_off_m s + of_int (int k)"
    using j(3) by (simp add: guard)
  have ex: "map_exact E \<longrightarrow>
              unat (length_m ((grow_step E ^^ j) s)) = unat (length_m s) + j * 2 ^ 25"
    using funpow_length_exact [OF _ nowrap] by blast
  show ?thesis
    using pos j(1,3) g1 g2 funpow_length [OF assms(1) nowrap] ex grow_step_unfold
    by (intro exI [of _ j]) blast
qed

theorem growth_loop_result_witness:
  "map_ok env_exact \<and> room 20 logger0 \<and> length_m logger0 < now_off_m logger0 + of_int (int 20) \<and>
   map_option length_m (grow env_exact 20 logger0) = Some (100 + 2 ^ 25) \<and>
   (\<exists>j. 0 < j \<and> grow env_exact (int 20) logger0 = Some ((grow_step env_exact ^^ j) logger0) \<and>
      unat (now_off_m logger0) + 20 \<le> unat (length_m ((grow_step env_exact ^^ j) logger0)) \<and>
      unat (length_m ((grow_step env_exact ^^ j) logger0)) = unat (length_m logger0) + j * 2 ^ 25)"
proof -
  have "map_option length_m (grow env_exact 20 logger0) = Some (100 + 2 ^ 25)"
    by code_simp
  then show ?thesis
    using growth_loop_result [OF env_exact_ok room_logger0 needs_growth_logger0]
      env_exact_ok env_exact_exact room_logger0 needs_growth_logger0
    by blast
qed

text \<open>
  Against C2 as first stated: a service that maps 64 MiB at least takes the
  capacity from 100 bytes to 67108864, a gain that 32 MiB does not divide.
\<close>

theorem growth_not_a_multiple:
  "map_ok env_coarse \<and> length_m logger0 < now_off_m logger0 + of_int 20 \<and>
   map_option length_m (grow env_coarse 20 logger0) = Some 0x4000000 \<and>
   unat (0x4000000 :: size_t) - unat (length_m logger0) = 67108764 \<and>
   \<not> (2 ^ 25 :: nat) dvd 67108764"
proof -
  have "map_option length_m (grow env_coarse 20 logger0) = Some 0x4000000"
    by code_simp
  moreover have "length_m logger0 < now_off_m logger0 + of_int 20"
    by (simp add: logger0_def)
  moreover have "unat (0x4000000 :: size_t) - unat (length_m logger0) = 67108764"
    by (simp add: logger0_def)
  moreover have "\<not> (2 ^ 25 :: nat) dvd 67108764"
    by simp
  ultimately show ?thesis using env_coarse_ok by blast
qed

text \<open>
  C1. The mapped capacity is at least the logical offset: after construction,
  whether the region is fresh or reopened; after every iteration of the growth
  loop inside an append, which also keeps the precondition of the next iteration;
  after an append; and after any sequence of appends. (The mapping service grants
  at least what is requested, sizes stay clear of \<open>2^64\<close>, and every call of an
  append is loggable: its instant is valid and its formatted text with the two
  spare bytes fits an \<^verbatim>\<open>int\<close>.)
\<close>

theorem capacity_covers_offset:
  assumes "map_ok E"
  shows "(PmdkLogger E filename mmap_base len existing = Inr s0 \<longrightarrow> capacity_ok s0) \<and>
         (capacity_ok s \<and> room k s \<and> length_m s < now_off_m s + of_int (int k) \<longrightarrow>
            capacity_ok (grow_step E s) \<and> room k (grow_step E s)) \<and>
         (capacity_ok s \<and> loggable E c \<and> room (length (record_bytes E c)) s \<longrightarrow>
            (\<exists>s'. Logv E c s = Some (Inr s') \<and> capacity_ok s')) \<and>
         (capacity_ok s \<and> list_all (loggable E) cs \<and> room (total_bytes E cs) s \<longrightarrow>
            (\<exists>s'. Logv_seq E cs s = Some (Inr s') \<and> capacity_ok s'))"
proof (intro conjI impI)
  assume "PmdkLogger E filename mmap_base len existing = Inr s0"
  then show "capacity_ok s0"
    by (auto simp: PmdkLogger_def capacity_ok_def split: if_splits)
next
  assume a: "capacity_ok s \<and> room k s \<and> length_m s < now_off_m s + of_int (int k)"
  then have fits: "unat (now_off_m s) + k < 2 ^ 64" by (simp add: room_def)
  have "unat (length_m s) < unat (now_off_m s) + k"
    using a needs_growth_nat [OF fits] by simp
  then have "unat (length_m s) + 2 ^ 25 < 2 ^ 64" using a by (simp add: room_def)
  from grow_step_length [OF assms this] a show "capacity_ok (grow_step E s)"
    by (simp add: capacity_ok_nat)
  show "room k (grow_step E s)" using a by (simp add: room_def)
next
  assume a: "capacity_ok s \<and> loggable E c \<and> room (length (record_bytes E c)) s"
  then have "valid_instant c" "room (length (record_bytes E c)) s"
    "int (length (rendered E c)) + 2 \<le> INT_MAX"
    by (simp_all add: loggable_def)
  from Logv_result [OF assms this] show "\<exists>s'. Logv E c s = Some (Inr s') \<and> capacity_ok s'"
    by (auto simp: capacity_ok_nat)
next
  assume a: "capacity_ok s \<and> list_all (loggable E) cs \<and> room (total_bytes E cs) s"
  with Logv_seq_result [OF assms, of cs s] obtain s' where s':
    "Logv_seq E cs s = Some (Inr s')"
    "unat (now_off_m s') = unat (now_off_m s) + total_bytes E cs"
    "unat (length_m s) \<le> unat (length_m s')"
    "cs \<noteq> [] \<longrightarrow> unat (now_off_m s') \<le> unat (length_m s')"
    by blast
  have "capacity_ok s'"
  proof (cases "cs = []")
    case True
    with s'(2,3) a show ?thesis by (simp add: capacity_ok_nat total_bytes_def)
  next
    case False
    with s'(4) show ?thesis by (simp add: capacity_ok_nat)
  qed
  with s'(1) show "\<exists>s'. Logv_seq E cs s = Some (Inr s') \<and> capacity_ok s'" by blast
qed

theorem capacity_covers_offset_witness:
  "map_ok env_exact \<and>
   PmdkLogger env_exact ''/mnt/pmem/LOG'' 0x7f0000000000 100 True =
     Inr \<lparr>filename_m = ''/mnt/pmem/LOG'', length_m = 100, mmap_base_m = 0x7f0000000000,
          now_off_m = 100, effects = []\<rparr> \<and>
   capacity_ok \<lparr>filename_m = ''/mnt/pmem/LOG'', length_m = 100, mmap_base_m = 0x7f0000000000,
          now_off_m = 100, effects = []\<rparr> \<and>
   capacity_ok logger0 \<and> room 20 logger0 \<and>
   length_m logger0 < now_off_m logger0 + of_int (int 20) \<and>
   capacity_ok (grow_step env_exact logger0) \<and>
   loggable env_exact call_x5 \<and> room (length (record_bytes env_exact call_x5)) logger0 \<and>
   list_all (loggable env_exact) [call_x5, call_blank_lines] \<and>
   room (total_bytes env_exact [call_x5, call_blank_lines]) logger0 \<and>
   (\<exists>s'. Logv env_exact call_x5 logger0 = Some (Inr s') \<and> capacity_ok s') \<and>
   (\<exists>s'. Logv_seq env_exact [call_x5, call_blank_lines] logger0 = Some (Inr s') \<and> capacity_ok s')"
proof -
  have new: "PmdkLogger env_exact ''/mnt/pmem/LOG'' 0x7f0000000000 100 True =
     Inr \<lparr>filename_m = ''/mnt/pmem/LOG'', length_m = 100, mmap_base_m = 0x7f0000000000,
          now_off_m = 100, effects = []\<rparr>"
    by (simp add: PmdkLogger_def env_exact_def)
  show ?thesis
    using capacity_covers_offset [OF env_exact_ok, of "''/mnt/pmem/LOG''" "0x7f0000000000" 100 True
        "\<lparr>filename_m = ''/mnt/pmem/LOG'', length_m = 100, mmap_base_m = 0x7f0000000000,
          now_off_m = 100, effects = []\<rparr>" logger0 20 call_x5 "[call_x5, call_blank_lines]"]
      new env_exact_ok capacity_logger0 room_logger0 needs_growth_logger0 calls_loggable
      room_two_calls x5_loggable room_x5
    by blast
qed

text \<open>
  C3. Any sequence of appends advances the logical offset by exactly the sum of
  the byte lengths of the records (each with its line break). The copies made are
  the records laid end to end from the starting offset: each begins where the one
  before it ended, so every later record starts at or after the end of each
  earlier one. (Same hypotheses as for C1.)
\<close>

theorem offset_advances_by_sum:
  assumes "map_ok E" "list_all (loggable E) cs" "room (total_bytes E cs) s"
  shows "\<exists>s'. Logv_seq E cs s = Some (Inr s') \<and>
           unat (now_off_m s') =
             unat (now_off_m s) + sum_list (map (\<lambda>c. length (record_bytes E c)) cs) \<and>
           now_off_m s' =
             now_off_m s + of_nat (sum_list (map (\<lambda>c. length (record_bytes E c)) cs)) \<and>
           copies (effects s') =
             copies (effects s) @ layout (unat (now_off_m s)) (map (record_bytes E) cs) \<and>
           apart (layout (unat (now_off_m s)) (map (record_bytes E) cs))"
proof -
  from Logv_seq_result [OF assms] obtain s' where s':
    "Logv_seq E cs s = Some (Inr s')"
    "unat (now_off_m s') = unat (now_off_m s) + total_bytes E cs"
    "copies (effects s') =
       copies (effects s) @ layout (unat (now_off_m s)) (map (record_bytes E) cs)"
    by blast
  have "unat (now_off_m s') = unat (now_off_m s + of_nat (total_bytes E cs))"
    using s'(2) unat_advance [OF assms(3)] by simp
  then have "now_off_m s' = now_off_m s + of_nat (total_bytes E cs)"
    by (simp add: word_unat_eq_iff)
  with s' apart_layout show ?thesis
    by (intro exI [of _ s']) (simp add: total_bytes_def)
qed

theorem offset_advances_by_sum_witness:
  "map_ok env_exact \<and> list_all (loggable env_exact) [call_x5, call_blank_lines] \<and>
   room (total_bytes env_exact [call_x5, call_blank_lines]) logger0 \<and>
   (\<exists>s'. Logv_seq env_exact [call_x5, call_blank_lines] logger0 = Some (Inr s') \<and>
      unat (now_off_m s') = 90 + (38 + 37) \<and>
      copies (effects s') =
        [(90, ''2024/03/09-07:05:03.000042 140213 x=5'' @ [newline]),
         (128, ''2024/03/09-07:05:03.000042 140213 a'' @ [newline, newline])])"
proof -
  from offset_advances_by_sum [OF env_exact_ok calls_loggable room_two_calls]
  obtain s' where
    "Logv_seq env_exact [call_x5, call_blank_lines] logger0 = Some (Inr s')"
    "unat (now_off_m s') = unat (now_off_m logger0) +
        sum_list (map (\<lambda>c. length (record_bytes env_exact c)) [call_x5, call_blank_lines])"
    "copies (effects s') = copies (effects logger0) @
        layout (unat (now_off_m logger0)) (map (record_bytes env_exact) [call_x5, call_blank_lines])"
    by blast
  then have "Logv_seq env_exact [call_x5, call_blank_lines] logger0 = Some (Inr s') \<and>
      unat (now_off_m s') = 90 + (38 + 37) \<and>
      copies (effects s') =
        [(90, ''2024/03/09-07:05:03.000042 140213 x=5'' @ [newline]),
         (128, ''2024/03/09-07:05:03.000042 140213 a'' @ [newline, newline])]"
    by (simp add: record_x5 record_blank_lines logger0_def)
  then show ?thesis
    using env_exact_ok calls_loggable room_two_calls by blast
qed

text \<open>
  C7. Constructed with \<open>existing\<close> set and a mapped length \<open>len\<close>, the logger
  starts at offset \<open>len\<close>; constructed fresh, at offset 0. Every copy made by the
  appends that follow starts at or after the starting offset, so no byte below
  it is written. (Same hypotheses as for C1.)
\<close>

theorem reopen_keeps_prefix:
  assumes "map_ok E" "PmdkLogger E filename mmap_base len existing = Inr s0"
    "list_all (loggable E) cs" "room (total_bytes E cs) s0"
  shows "now_off_m s0 = (if existing then len else 0) \<and>
         (\<exists>s'. Logv_seq E cs s0 = Some (Inr s') \<and>
            list_all (\<lambda>(off, bytes). unat (now_off_m s0) \<le> off) (copies (effects s')))"
proof -
  have s0: "now_off_m s0 = (if existing then len else 0)" "effects s0 = []"
    using assms(2) by (auto simp: PmdkLogger_def split: if_splits)
  from Logv_seq_result [OF assms(1,3,4)] obtain s' where s':
    "Logv_seq E cs s0 = Some (Inr s')"
    "copies (effects s') =
       copies (effects s0) @ layout (unat (now_off_m s0)) (map (record_bytes E) cs)"
    by blast
  have "list_all (\<lambda>(off, bytes). unat (now_off_m s0) \<le> off) (copies (effects s'))"
    unfolding s'(2) s0(2) using layout_lower [of "unat (now_off_m s0)" "unat (now_off_m s0)"]
    by simp
  with s'(1) s0(1) show ?thesis by blast
qed

theorem reopen_keeps_prefix_witness:
  "map_ok env_exact \<and>
   PmdkLogger env_exact ''/mnt/pmem/LOG'' 0x7f0000000000 100 True =
     Inr \<lparr>filename_m = ''/mnt/pmem/LOG'', length_m = 100, mmap_base_m = 0x7f0000000000,
          now_off_m = 100, effects = []\<rparr> \<and>
   list_all (loggable env_exact) [call_x5, call_blank_lines] \<and>
   room (total_bytes env_exact [call_x5, call_blank_lines])
     \<lparr>filename_m = ''/mnt/pmem/LOG'', length_m = 100, mmap_base_m = 0x7f0000000000,
      now_off_m = 100, effects = []\<rparr> \<and>
   (\<exists>s'. Logv_seq env_exact [call_x5, call_blank_lines]
            \<lparr>filename_m = ''/mnt/pmem/LOG'', length_m = 100, mmap_base_m = 0x7f0000000000,
             now_off_m = 100, effects = []\<rparr> = Some (Inr s') \<and>
      list_all (\<lambda>(off, bytes). 100 \<le> off) (copies (effects s')))"
proof -
  from reopen_keeps_prefix [OF env_exact_ok reopened0 calls_loggable room_reopened0]
  have "\<exists>s'. Logv_seq env_exact [call_x5, call_blank_lines]
            \<lparr>filename_m = ''/mnt/pmem/LOG'', length_m = 100, mmap_base_m = 0x7f0000000000,
             now_off_m = 100, effects = []\<rparr> = Some (Inr s') \<and>
      list_all (\<lambda>(off, bytes). 100 \<le> off) (copies (effects s'))"
    by simp
  then show ?thesis
    using env_exact_ok reopened0 calls_loggable room_reopened0 by blast
qed

text \<open>
  C4. A message whose formatted text, header and body, has at most 510
  characters (the 512 of the stack buffer less 2) is formatted once, into the
  stack buffer, and committed from it: the effects of the append are one
  \<^verbatim>\<open>snprintf\<close> and one \<^verbatim>\<open>vsnprintf\<close> into the 512 bytes, the mapping calls of
  the growth loop and the copy of the record. No array is allocated or freed.
\<close>

theorem short_message_stays_on_stack:
  assumes "map_ok E" "valid_instant c" "room (length (record_bytes E c)) s"
    and "int (length (rendered E c)) \<le> kStackBufferSize - 2"
  shows "\<exists>s' G. Logv E c s = Some (Inr s') \<and> list_all is_mapping_call G \<and>
           effects s' = effects s @
             [Snprintf kStackBufferSize,
              Vsnprintf (kStackBufferSize - int (length (header_text c)))] @ G @
             [PmemMemcpy (mmap_base_m s') (now_off_m s) (record_bytes E c)] \<and>
           filter is_heap_event (effects s') = filter is_heap_event (effects s)"
proof -
  have fit: "length (rendered E c) \<le> 510"
    using assms(4) by (simp add: kStackBufferSize_def)
  from Logv_result [OF assms(1-3) small_fits_int [OF fit]] fit obtain s' G where s':
    "Logv E c s = Some (Inr s')" "list_all is_mapping_call G"
    "effects s' = effects s @ [Snprintf 512, Vsnprintf (512 - int (length (header_text c)))] @
        G @ [PmemMemcpy (mmap_base_m s') (now_off_m s) (record_bytes E c)]"
    by auto
  have "filter is_heap_event (effects s') = filter is_heap_event (effects s)"
    by (simp add: s'(3) heap_mapping_calls [OF s'(2)])
  with s' show ?thesis
    by (intro exI [of _ s'] exI [of _ G]) (simp add: kStackBufferSize_def)
qed

theorem short_message_stays_on_stack_witness:
  "map_ok env_exact \<and> valid_instant call_x5 \<and>
   room (length (record_bytes env_exact call_x5)) logger0 \<and>
   int (length (rendered env_exact call_x5)) \<le> kStackBufferSize - 2 \<and>
   (\<exists>s' G. Logv env_exact call_x5 logger0 = Some (Inr s') \<and> list_all is_mapping_call G \<and>
      effects s' = [Snprintf 512, Vsnprintf 478] @ G @
        [PmemMemcpy (mmap_base_m s') 90 (''2024/03/09-07:05:03.000042 140213 x=5'' @ [newline])] \<and>
      filter is_heap_event (effects s') = [])"
proof -
  from short_message_stays_on_stack [OF env_exact_ok call_x5_valid room_x5 short_x5]
  have "\<exists>s' G. Logv env_exact call_x5 logger0 = Some (Inr s') \<and> list_all is_mapping_call G \<and>
      effects s' = [Snprintf 512, Vsnprintf 478] @ G @
        [PmemMemcpy (mmap_base_m s') 90 (''2024/03/09-07:05:03.000042 140213 x=5'' @ [newline])] \<and>
      filter is_heap_event (effects s') = []"
    by (simp add: record_x5 header_x5 kStackBufferSize_def logger0_def)
  then show ?thesis
    using env_exact_ok call_x5_valid room_x5 short_x5 by blast
qed

text \<open>
  C5. A message whose formatted text has more than 510 characters, and with two
  more still fits an \<^verbatim>\<open>int\<close>, is formatted twice: once into the stack buffer
  and once more into an array of exactly the length of the text plus 2, which is
  allocated for the second pass and freed after the copy, as the last effect of
  the append. The formatter has succeeded, the text is the header and the body
  it rendered, and the record is the text with a newline added unless the text
  ends in one; it ends in a newline, and the number of newlines it ends in is
  that of the body, or one if the body ends in none. So it ends in exactly one
  unless the body itself ends in several.
\<close>

theorem long_message_reformats_once:
  assumes "map_ok E" "valid_instant c" "room (length (record_bytes E c)) s"
    and "kStackBufferSize - 2 < int (length (rendered E c))"
    and "int (length (rendered E c)) + 2 \<le> INT_MAX"
  shows "\<exists>s' G body. Logv E c s = Some (Inr s') \<and> list_all is_mapping_call G \<and>
           effects s' = effects s @
             [Snprintf kStackBufferSize,
              Vsnprintf (kStackBufferSize - int (length (header_text c))),
              NewCharArray (int (length (rendered E c)) + 2),
              Snprintf (int (length (rendered E c)) + 2),
              Vsnprintf (int (length (rendered E c)) + 2 - int (length (header_text c)))] @ G @
             [PmemMemcpy (mmap_base_m s') (now_off_m s) (record_bytes E c), DeleteArray] \<and>
           vsnprintf_text E (format c) (arguments c) = Some body \<and>
           rendered E c = header_text c @ body \<and>
           record_bytes E c =
             rendered E c @ (if last (rendered E c) = newline then [] else [newline]) \<and>
           last (record_bytes E c) = newline \<and>
           trailing_newlines (record_bytes E c) = max 1 (trailing_newlines body)"
proof -
  have big: "\<not> length (rendered E c) \<le> 510"
    using assms(4) by (simp add: kStackBufferSize_def)
  from Logv_result [OF assms(1-3,5)] big obtain s' G where s':
    "Logv E c s = Some (Inr s')" "list_all is_mapping_call G"
    "effects s' = effects s @
       [Snprintf 512, Vsnprintf (512 - int (length (header_text c))),
        NewCharArray (int (length (rendered E c)) + 2),
        Snprintf (int (length (rendered E c)) + 2),
        Vsnprintf (int (length (rendered E c)) + 2 - int (length (header_text c)))] @ G @
       [PmemMemcpy (mmap_base_m s') (now_off_m s) (record_bytes E c), DeleteArray]"
    by auto
  have "vsnprintf_text E (format c) (arguments c) \<noteq> None"
  proof
    assume "vsnprintf_text E (format c) (arguments c) = None"
    then have "length (rendered E c) \<le> length (header_text c)"
      by (simp add: rendered_failure)
    with header_bounds(2) [OF assms(2)] big show False by simp
  qed
  then obtain body where body: "vsnprintf_text E (format c) (arguments c) = Some body"
    by blast
  have R: "record_bytes E c = rendered E c @ (if last (rendered E c) = newline then [] else [newline])"
    by (simp add: record_bytes_def)
  have T: "trailing_newlines (record_bytes E c) = max 1 (trailing_newlines body)"
    by (simp add: record_bytes_line_break(2) trailing_newlines_rendered [OF body])
  have F: "effects s' = effects s @
             [Snprintf kStackBufferSize,
              Vsnprintf (kStackBufferSize - int (length (header_text c))),
              NewCharArray (int (length (rendered E c)) + 2),
              Snprintf (int (length (rendered E c)) + 2),
              Vsnprintf (int (length (rendered E c)) + 2 - int (length (header_text c)))] @ G @
             [PmemMemcpy (mmap_base_m s') (now_off_m s) (record_bytes E c), DeleteArray]"
    using s'(3) by (simp add: kStackBufferSize_def)
  from s'(1,2) F body rendered_success [OF body] R record_bytes_line_break(1) [of E c] T
  show ?thesis by blast
qed

theorem long_message_reformats_once_witness:
  "map_ok env_exact \<and> valid_instant call_long \<and>
   room (length (record_bytes env_exact call_long)) logger0 \<and>
   kStackBufferSize - 2 < int (length (rendered env_exact call_long)) \<and>
   int (length (rendered env_exact call_long)) + 2 \<le> INT_MAX \<and>
   (\<exists>s' G. Logv env_exact call_long logger0 = Some (Inr s') \<and> list_all is_mapping_call G \<and>
      effects s' =
        [Snprintf 512, Vsnprintf 478, NewCharArray 638, Snprintf 638, Vsnprintf 604] @ G @
        [PmemMemcpy (mmap_base_m s') 90 (record_bytes env_exact call_long), DeleteArray] \<and>
      last (record_bytes env_exact call_long) = newline \<and>
      trailing_newlines (record_bytes env_exact call_long) = 2)"
proof -
  from long_message_reformats_once [OF env_exact_ok call_long_valid room_long long_is_long max_long]
  obtain s' G body where s': "Logv env_exact call_long logger0 = Some (Inr s')"
    "list_all is_mapping_call G"
    "effects s' = effects logger0 @
             [Snprintf kStackBufferSize,
              Vsnprintf (kStackBufferSize - int (length (header_text call_long))),
              NewCharArray (int (length (rendered env_exact call_long)) + 2),
              Snprintf (int (length (rendered env_exact call_long)) + 2),
              Vsnprintf (int (length (rendered env_exact call_long)) + 2 -
                 int (length (header_text call_long)))] @ G @
             [PmemMemcpy (mmap_base_m s') (now_off_m logger0) (record_bytes env_exact call_long),
              DeleteArray]"
    "vsnprintf_text env_exact (format call_long) (arguments call_long) = Some body"
    "last (record_bytes env_exact call_long) = newline"
    "trailing_newlines (record_bytes env_exact call_long) = max 1 (trailing_newlines body)"
    by blast
  have "effects s' =
        [Snprintf 512, Vsnprintf 478, NewCharArray 638, Snprintf 638, Vsnprintf 604] @ G @
        [PmemMemcpy (mmap_base_m s') 90 (record_bytes env_exact call_long), DeleteArray]"
    using s'(3) by (simp add: rendered_long header_long kStackBufferSize_def logger0_def)
  moreover have "body = replicate 600 (CHR ''a'') @ [newline, newline]"
    using s'(4) by (simp add: body_long)
  then have "trailing_newlines (record_bytes env_exact call_long) = 2"
    using s'(6) by (simp add: trailing_long)
  ultimately show ?thesis
    using s'(1,2,5) env_exact_ok call_long_valid room_long long_is_long max_long by blast
qed

text \<open>
  Against C5 as first stated: 600 letters and two newlines take the dynamic path,
  and the one copy made ends in two newlines.
\<close>

theorem long_record_two_line_breaks:
  "kStackBufferSize - 2 < int (length (rendered env_exact call_long)) \<and>
   map_option (map_sum id (\<lambda>s. map (\<lambda>(off, bytes). trailing_newlines bytes) (copies (effects s))))
     (Logv env_exact call_long logger0) = Some (Inr [2])"
proof -
  from Logv_copies [OF env_exact_ok call_long_valid room_long max_long] obtain s' where
    "Logv env_exact call_long logger0 = Some (Inr s')"
    "copies (effects s') =
       copies (effects logger0) @ [(unat (now_off_m logger0), record_bytes env_exact call_long)]"
    by blast
  moreover have "trailing_newlines (record_bytes env_exact call_long) = 2"
    by (simp add: record_bytes_line_break(2) trailing_newlines_rendered [OF body_long] trailing_long)
  ultimately show ?thesis
    using long_is_long by (simp add: logger0_def)
qed

text \<open>
  C6. Every record an append commits is the formatted text with a newline added
  unless the text ends in one: it always ends in a newline, and a text that ends
  in one gets no second one. When the formatter succeeds the text is the header
  and the body; an empty body gives the header (whose last character is a space)
  and the newline, and the number of newlines the record ends in is that of the
  body, or one if the body ends in none: exactly one unless the body itself ends
  in several. When the formatter fails, the \<open>-1\<close> it returns takes the offset
  back over the space that ends the header: the text is the header less that
  space, and the record follows from it in the same way. (The instant is valid,
  the mapping service grants at least what is requested, sizes stay clear of
  \<open>2^64\<close>, and the formatted text with its two spare bytes fits an \<^verbatim>\<open>int\<close>.)
\<close>

theorem record_ends_with_line_break:
  assumes "map_ok E" "valid_instant c" "room (length (record_bytes E c)) s"
    and "int (length (rendered E c)) + 2 \<le> INT_MAX"
  shows "\<exists>s'. Logv E c s = Some (Inr s') \<and>
           copies (effects s') = copies (effects s) @ [(unat (now_off_m s), record_bytes E c)] \<and>
           record_bytes E c =
             rendered E c @ (if last (rendered E c) = newline then [] else [newline]) \<and>
           last (record_bytes E c) = newline \<and>
           trailing_newlines (record_bytes E c) = max 1 (trailing_newlines (rendered E c)) \<and>
           last (header_text c) = CHR '' '' \<and>
           (\<forall>body. vsnprintf_text E (format c) (arguments c) = Some body \<longrightarrow>
              rendered E c = header_text c @ body \<and>
              trailing_newlines (record_bytes E c) = max 1 (trailing_newlines body) \<and>
              (body = [] \<longrightarrow> record_bytes E c = header_text c @ [newline])) \<and>
           (vsnprintf_text E (format c) (arguments c) = None \<longrightarrow>
              rendered E c = butlast (header_text c))"
proof -
  from Logv_copies [OF assms] obtain s' where s':
    "Logv E c s = Some (Inr s')"
    "copies (effects s') = copies (effects s) @ [(unat (now_off_m s), record_bytes E c)]"
    by blast
  have R: "record_bytes E c = rendered E c @ (if last (rendered E c) = newline then [] else [newline])"
    by (simp add: record_bytes_def)
  have S: "\<forall>body. vsnprintf_text E (format c) (arguments c) = Some body \<longrightarrow>
              rendered E c = header_text c @ body \<and>
              trailing_newlines (record_bytes E c) = max 1 (trailing_newlines body) \<and>
              (body = [] \<longrightarrow> record_bytes E c = header_text c @ [newline])"
  proof (intro allI impI)
    fix body
    assume body: "vsnprintf_text E (format c) (arguments c) = Some body"
    have "trailing_newlines (record_bytes E c) = max 1 (trailing_newlines body)"
      by (simp only: record_bytes_line_break(2) trailing_newlines_rendered [OF body])
    moreover have "body = [] \<longrightarrow> record_bytes E c = header_text c @ [newline]"
      using body by (auto intro: record_bytes_empty_message)
    ultimately show "rendered E c = header_text c @ body \<and>
              trailing_newlines (record_bytes E c) = max 1 (trailing_newlines body) \<and>
              (body = [] \<longrightarrow> record_bytes E c = header_text c @ [newline])"
      using rendered_success [OF body] by blast
  qed
  have N: "vsnprintf_text E (format c) (arguments c) = None \<longrightarrow>
              rendered E c = butlast (header_text c)"
    by (simp add: rendered_failure)
  from s' R record_bytes_line_break [of E c] last_header_text [of c] S N
  show ?thesis by (intro exI [of _ s']) blast
qed

theorem record_ends_with_line_break_witness:
  "map_ok env_exact \<and> valid_instant call_empty \<and>
   room (length (record_bytes env_exact call_empty)) logger0 \<and>
   int (length (rendered env_exact call_empty)) + 2 \<le> INT_MAX \<and>
   vsnprintf_text env_exact (format call_empty) (arguments call_empty) = Some [] \<and>
   (\<exists>s'. Logv env_exact call_empty logger0 = Some (Inr s') \<and>
      copies (effects s') = [(90, ''2024/03/09-07:05:03.000042 140213 '' @ [newline])]) \<and>
   trailing_newlines (record_bytes env_exact call_empty) = 1 \<and>
   valid_instant call_percent \<and>
   room (length (record_bytes env_exact call_percent)) logger0 \<and>
   int (length (rendered env_exact call_percent)) + 2 \<le> INT_MAX \<and>
   vsnprintf_text env_exact (format call_percent) (arguments call_percent) = None \<and>
   (\<exists>s'. Logv env_exact call_percent logger0 = Some (Inr s') \<and>
      copies (effects s') = [(90, ''2024/03/09-07:05:03.000042 140213'' @ [newline])])"
proof -
  from record_ends_with_line_break [OF env_exact_ok call_empty_valid room_empty max_empty]
  obtain s' where s': "Logv env_exact call_empty logger0 = Some (Inr s')"
    "copies (effects s') = copies (effects logger0) @
       [(unat (now_off_m logger0), record_bytes env_exact call_empty)]"
    "\<forall>body. vsnprintf_text env_exact (format call_empty) (arguments call_empty) = Some body \<longrightarrow>
       rendered env_exact call_empty = header_text call_empty @ body \<and>
       trailing_newlines (record_bytes env_exact call_empty) = max 1 (trailing_newlines body) \<and>
       (body = [] \<longrightarrow> record_bytes env_exact call_empty = header_text call_empty @ [newline])"
    by blast
  have e1: "copies (effects s') = [(90, ''2024/03/09-07:05:03.000042 140213 '' @ [newline])]"
    using s'(2) by (simp add: logger0_def record_empty)
  have "trailing_newlines ([] :: string) = 0"
    by (simp add: trailing_newlines_def)
  moreover from s'(3) body_empty
  have "trailing_newlines (record_bytes env_exact call_empty) = max 1 (trailing_newlines [])"
    by blast
  ultimately have e2: "trailing_newlines (record_bytes env_exact call_empty) = 1"
    by simp
  from record_ends_with_line_break [OF env_exact_ok call_percent_valid room_percent max_percent]
  obtain t' where t': "Logv env_exact call_percent logger0 = Some (Inr t')"
    "copies (effects t') = copies (effects logger0) @
       [(unat (now_off_m logger0), record_bytes env_exact call_percent)]"
    by blast
  have p1: "copies (effects t') = [(90, ''2024/03/09-07:05:03.000042 140213'' @ [newline])]"
    using t'(2) by (simp add: logger0_def record_percent)
  show ?thesis
    using s'(1) e1 e2 t'(1) p1 env_exact_ok call_empty_valid room_empty max_empty body_empty
      call_percent_valid room_percent max_percent body_percent
    by blast
qed

text \<open>
  Against C6 as first stated: the message \<^verbatim>\<open>a\<close> followed by two newlines gives a
  record that ends in both.
\<close>

theorem record_two_line_breaks:
  "map_option (map_sum id (\<lambda>s. map (\<lambda>(off, bytes). (bytes, trailing_newlines bytes))
                                   (copies (effects s))))
     (Logv env_exact call_blank_lines logger0) =
   Some (Inr [(''2024/03/09-07:05:03.000042 140213 a'' @ [newline, newline], 2)])"
proof -
  from Logv_copies [OF env_exact_ok call_blank_lines_valid room_blank_lines max_blank_lines]
  obtain s' where
    "Logv env_exact call_blank_lines logger0 = Some (Inr s')"
    "copies (effects s') = copies (effects logger0) @
       [(unat (now_off_m logger0), record_bytes env_exact call_blank_lines)]"
    by blast
  moreover have "trailing_newlines (''2024/03/09-07:05:03.000042 140213 a'' @ [newline, newline]) = 2"
    by (simp add: trailing_newlines_def newline_def)
  ultimately show ?thesis
    by (simp add: logger0_def record_blank_lines)
qed




text \<open>
  C9. At a valid instant, with a formatter that renders \<^verbatim>\<open>%s=%d\<close> for \<^verbatim>\<open>"x"\<close> and
  5 as the C library does, the append makes exactly one copy, at the offset it
  started with: the 26 characters of the date and time (four digits of year, two
  each of month, day, hour, minute and second, six of microseconds), a space, the
  thread id cut to 32 characters, a space, \<^verbatim>\<open>x=5\<close> and one newline. The offset
  advances by the length of that line. The thread id is the streamed text up to
  32 characters as \<^verbatim>\<open>%s\<close> reads it, that is up to a NUL if it has one; when it
  has no newline, the newline at the end is the only one in the line.
\<close>

theorem example_line:
  assumes "map_ok E" "valid_instant c" "room (length (record_bytes E c)) s"
    and "format c = ''%s=%d''" "arguments c = [ArgStr ''x'', ArgInt 5]"
    and "vsnprintf_text E = c_printf"
  shows "\<exists>s'. Logv E c s = Some (Inr s') \<and>
           copies (effects s') = copies (effects s) @
             [(unat (now_off_m s),
               stamp c @ '' '' @ c_str (take 32 (thread_stream c)) @ '' x=5'' @ [newline])] \<and>
           unat (now_off_m s') = unat (now_off_m s) +
             length (stamp c @ '' '' @ c_str (take 32 (thread_stream c)) @ '' x=5'' @ [newline]) \<and>
           length (stamp c) = 26 \<and>
           length (c_str (take 32 (thread_stream c))) \<le> 32 \<and>
           (NUL \<notin> set (thread_stream c) \<longrightarrow>
              c_str (take 32 (thread_stream c)) = take 32 (thread_stream c)) \<and>
           (newline \<notin> set (thread_stream c) \<longrightarrow>
              newline \<notin> set (stamp c @ '' '' @ c_str (take 32 (thread_stream c)) @ '' x=5''))"
proof -
  let ?line = "stamp c @ '' '' @ c_str (take 32 (thread_stream c)) @ '' x=5'' @ [newline]"
  have R: "record_bytes E c = ?line"
    by (rule record_x5_form [OF assms(2,4,5,6)])
  have tid: "length (c_str (take 32 (thread_stream c))) \<le> 32"
    using length_thread_id [of c] by (simp add: thread_id_take)
  have "length (rendered E c) \<le> 510"
    using tid by (simp add: rendered_x5_form [OF assms(2,4,5,6)] length_stamp)
  from Logv_copies [OF assms(1-3) small_fits_int [OF this]] obtain s' where s':
    "Logv E c s = Some (Inr s')"
    "unat (now_off_m s') = unat (now_off_m s) + length (record_bytes E c)"
    "copies (effects s') = copies (effects s) @ [(unat (now_off_m s), record_bytes E c)]"
    by blast
  have nul: "NUL \<notin> set (thread_stream c) \<longrightarrow>
               c_str (take 32 (thread_stream c)) = take 32 (thread_stream c)"
    by (auto intro: c_str_no_NUL dest: in_set_takeD)
  have nl: "newline \<notin> set (thread_stream c) \<longrightarrow>
              newline \<notin> set (stamp c @ '' '' @ c_str (take 32 (thread_stream c)) @ '' x=5'')"
  proof
    assume "newline \<notin> set (thread_stream c)"
    then have "newline \<notin> set (c_str (take 32 (thread_stream c)))"
      using set_c_str [of "take 32 (thread_stream c)"] by (auto dest: in_set_takeD)
    then show "newline \<notin> set (stamp c @ '' '' @ c_str (take 32 (thread_stream c)) @ '' x=5'')"
      using newline_stamp [of c] by (simp add: newline_def)
  qed
  show ?thesis
    using s' tid nul nl length_stamp [of c] unfolding R
    by (intro exI [of _ s']) blast
qed

theorem example_line_witness:
  "map_ok env_exact \<and> valid_instant call_x5 \<and>
   room (length (record_bytes env_exact call_x5)) logger0 \<and>
   format call_x5 = ''%s=%d'' \<and> arguments call_x5 = [ArgStr ''x'', ArgInt 5] \<and>
   vsnprintf_text env_exact = c_printf \<and>
   (\<exists>s'. Logv env_exact call_x5 logger0 = Some (Inr s') \<and>
      copies (effects s') = [(90, ''2024/03/09-07:05:03.000042 140213 x=5'' @ [newline])] \<and>
      unat (now_off_m s') = 90 + 38)"
proof -
  have f: "format call_x5 = ''%s=%d''" "arguments call_x5 = [ArgStr ''x'', ArgInt 5]"
    "vsnprintf_text env_exact = c_printf"
    by (simp_all add: call_x5_def env_exact_def)
  from example_line [OF env_exact_ok call_x5_valid room_x5 f]
  obtain s' where s': "Logv env_exact call_x5 logger0 = Some (Inr s')"
    "copies (effects s') = copies (effects logger0) @
       [(unat (now_off_m logger0),
         stamp call_x5 @ '' '' @ c_str (take 32 (thread_stream call_x5)) @ '' x=5'' @ [newline])]"
    "unat (now_off_m s') = unat (now_off_m logger0) +
       length (stamp call_x5 @ '' '' @ c_str (take 32 (thread_stream call_x5)) @ '' x=5'' @ [newline])"
    by blast
  have tid: "c_str (take 32 (thread_stream call_x5)) = ''140213''"
    by (simp add: call_x5_def c_str_def NUL_def)
  have "copies (effects s') = [(90, ''2024/03/09-07:05:03.000042 140213 x=5'' @ [newline])]"
    using s'(2) by (simp add: stamp_x5 tid logger0_def)
  moreover have "unat (now_off_m s') = 90 + 38"
    using s'(3) by (simp add: stamp_x5 tid logger0_def)
  ultimately show ?thesis
    using s'(1) env_exact_ok call_x5_valid room_x5 f by blast
qed

end
